theory Spec2Isabelle
  imports Main
begin

section \<open>JavaScript strings as used by server.js\<close>

text \<open>
  A JavaScript string is modelled as a HOL \<open>string\<close>: a list of characters with codes
  0 to 255. \<open>String.prototype.trim\<close> removes white space and line terminators from both
  ends; among the codes below 256 these are 9 to 13, 32 and 160.
\<close>

definition is_ws :: "char \<Rightarrow> bool" where
  "is_ws c = (of_char c \<in> {9, 10, 11, 12, 13, 32, 160 :: nat})"

definition trim :: "string \<Rightarrow> string" where
  "trim s = rev (dropWhile is_ws (rev (dropWhile is_ws s)))"

text \<open>
  \<open>s.split(c)\<close> for a separator of one character: the pieces between the occurrences of
  \<open>c\<close>; there is always at least one piece (\<open>''''.split(c)\<close> is \<open>['''']\<close>).
  \<open>cur\<close> holds the piece being read, reversed.
\<close>

fun split_from :: "char \<Rightarrow> string \<Rightarrow> string \<Rightarrow> string list" where
  "split_from c cur [] = [rev cur]"
| "split_from c cur (x # xs) =
     (if x = c then rev cur # split_from c [] xs else split_from c (x # cur) xs)"

definition split :: "char \<Rightarrow> string \<Rightarrow> string list" where
  "split c s = split_from c [] s"

section \<open>MessageSender.parseCookies\<close>

record cookie_entry =
  cookie_name :: string
  cookie_value :: string
  cookie_domain :: string
  cookie_path :: string
  cookie_httpOnly :: bool
  cookie_secure :: bool

definition mk_cookie :: "string \<Rightarrow> string \<Rightarrow> cookie_entry" where
  "mk_cookie n v =
     \<lparr>cookie_name = trim n, cookie_value = trim v, cookie_domain = ''.facebook.com'',
      cookie_path = ''/'', cookie_httpOnly = False, cookie_secure = True\<rparr>"

text \<open>
  The body of the \<open>for\<close> loop: \<open>const [name, value] = pair.trim().split('=')\<close> takes the
  first two pieces (\<open>value\<close> is \<open>undefined\<close> when there is one piece only), and
  \<open>if (name && value)\<close> holds when both are non-empty strings.
\<close>

definition push_pair :: "cookie_entry list \<Rightarrow> string \<Rightarrow> cookie_entry list" where
  "push_pair cookies pair =
     (case split (CHR ''='') (trim pair) of
        n # v # _ \<Rightarrow> if n \<noteq> [] \<and> v \<noteq> [] then cookies @ [mk_cookie n v] else cookies
      | _ \<Rightarrow> cookies)"

fun parse_pairs :: "cookie_entry list \<Rightarrow> string list \<Rightarrow> cookie_entry list" where
  "parse_pairs cookies [] = cookies"
| "parse_pairs cookies (pair # pairs) = parse_pairs (push_pair cookies pair) pairs"

definition parseCookies :: "string \<Rightarrow> cookie_entry list" where
  "parseCookies cookieString = parse_pairs [] (split (CHR '';'') cookieString)"

section \<open>More of JavaScript: substring test, numbers\<close>

text \<open>\<open>s.includes(sub)\<close>: \<open>sub\<close> occurs in \<open>s\<close> at some position.\<close>

fun starts_with :: "string \<Rightarrow> string \<Rightarrow> bool" where
  "starts_with s [] = True"
| "starts_with [] (p # ps) = False"
| "starts_with (x # xs) (p # ps) = (x = p \<and> starts_with xs ps)"

fun js_includes :: "string \<Rightarrow> string \<Rightarrow> bool" where
  "js_includes [] sub = (sub = [])"
| "js_includes (x # xs) sub = (starts_with (x # xs) sub \<or> js_includes xs sub)"

text \<open>
  The decimal digits of a count, as a template literal prints it
  (\<open>`Message ${this.totalSent} sent`\<close>).
\<close>

definition digit_char :: "nat \<Rightarrow> char" where
  "digit_char d = ''0123456789'' ! d"

function show_nat :: "nat \<Rightarrow> string" where
  "show_nat n = (if n < 10 then [digit_char n] else show_nat (n div 10) @ [digit_char (n mod 10)])"
  by pat_completeness auto
termination
  by (relation "measure (\<lambda>n. n)") auto

declare show_nat.simps [simp del]

text \<open>
  A JavaScript number is a double: it holds every integer up to \<open>2 ^ 53\<close> exactly, and
  \<open>2 ^ 53 + 1\<close> rounds back to \<open>2 ^ 53\<close>. So \<open>this.totalSent++\<close>, on a count that
  starts at 0, adds one below \<open>2 ^ 53\<close> and changes nothing from there on.
\<close>

definition exact_limit :: nat where
  "exact_limit = 2 ^ 53"

definition js_inc :: "nat \<Rightarrow> nat" where
  "js_inc n = (if n < exact_limit then n + 1 else n)"

text \<open>
  \<open>parseInt(s)\<close> with no radix: leading white space is skipped, a sign is read, the
  prefix \<open>0x\<close> or \<open>0X\<close> selects base 16, the longest run of digits is the value, and there
  is no value (\<open>NaN\<close>, here \<open>None\<close>) when that run is empty. Values beyond \<open>2 ^ 53\<close>
  are kept exact here, where JavaScript rounds them.
\<close>

definition digit_value :: "nat \<Rightarrow> char \<Rightarrow> nat option" where
  "digit_value radix c =
     (let k = of_char c :: nat;
          v = (if 48 \<le> k \<and> k \<le> 57 then k - 48
               else if 97 \<le> k \<and> k \<le> 122 then k - 87
               else if 65 \<le> k \<and> k \<le> 90 then k - 55
               else radix)
      in if v < radix then Some v else None)"

fun digits_value :: "nat \<Rightarrow> nat \<Rightarrow> string \<Rightarrow> nat" where
  "digits_value radix acc [] = acc"
| "digits_value radix acc (c # cs) =
     (case digit_value radix c of
        None \<Rightarrow> acc
      | Some v \<Rightarrow> digits_value radix (acc * radix + v) cs)"

definition parseInt :: "string \<Rightarrow> int option" where
  "parseInt str =
     (let s = dropWhile is_ws str;
          neg = starts_with s ''-'';
          s1 = (if starts_with s ''-'' \<or> starts_with s ''+'' then tl s else s);
          hex = (starts_with s1 ''0x'' \<or> starts_with s1 ''0X'');
          radix = (if hex then 16 else 10);
          s2 = (if hex then drop 2 s1 else s1)
      in case s2 of
           [] \<Rightarrow> None
         | c # _ \<Rightarrow>
             (case digit_value radix c of
                None \<Rightarrow> None
              | Some _ \<Rightarrow>
                  Some ((if neg then - 1 else 1) * int (digits_value radix 0 s2))))"

section \<open>The task: class MessageSender\<close>

record config =
  cookie :: string
  threadId :: string
  hattersName :: string
  delay :: "int option"
  filePath :: string

record sender =
  taskId :: string
  config :: config
  sessionId :: string
  browser :: bool
  page :: bool
  isRunning :: bool
  currentIndex :: nat
  totalSent :: nat
  messages :: "string list"
  startTime :: nat
  stopTime :: "nat option"

text \<open>
  \<open>browser\<close> and \<open>page\<close> record whether the field holds a handle (\<open>True\<close>) or \<open>null\<close>;
  times are milliseconds since the epoch. The constructor:
\<close>

definition new_sender :: "string \<Rightarrow> config \<Rightarrow> string \<Rightarrow> nat \<Rightarrow> sender" where
  "new_sender tid cfg sid now =
     \<lparr>taskId = tid, config = cfg, sessionId = sid, browser = False, page = False,
      isRunning = False, currentIndex = 0, totalSent = 0, messages = [],
      startTime = now, stopTime = None\<rparr>"

datatype status = St_error | St_starting | St_active | St_stopping | St_stopped

record status_event =
  ev_taskId :: string
  ev_status :: status
  ev_message :: string
  ev_totalSent :: nat
  ev_currentIndex :: nat
  ev_totalMessages :: nat
  ev_threadId :: string
  ev_delay :: "int option"
  ev_sessionId :: string
  ev_startTime :: nat
  ev_stopTime :: "nat option"

text \<open>
  What a task does to the outside, in order: \<open>Emit room data\<close> is
  \<open>io.to(room).emit('taskUpdate', data)\<close>, \<open>Delay ms\<close> is \<open>await this.delay(ms)\<close>,
  \<open>SetCookie c\<close> is \<open>page.setCookie(c)\<close> and \<open>Cleanup\<close> is a call of \<open>this.cleanup()\<close>,
  whose effect on the registry is defined with the server below.
\<close>

datatype action = Emit string status_event | Delay "int option" | SetCookie cookie_entry | Cleanup

definition status_data :: "sender \<Rightarrow> status \<Rightarrow> string \<Rightarrow> status_event" where
  "status_data s st msg =
     \<lparr>ev_taskId = taskId s, ev_status = st, ev_message = msg, ev_totalSent = totalSent s,
      ev_currentIndex = currentIndex s, ev_totalMessages = length (messages s),
      ev_threadId = threadId (config s), ev_delay = delay (config s),
      ev_sessionId = sessionId s, ev_startTime = startTime s, ev_stopTime = stopTime s\<rparr>"

definition emitStatus :: "sender \<Rightarrow> status \<Rightarrow> string \<Rightarrow> action" where
  "emitStatus s st msg = Emit (sessionId s) (status_data s st msg)"

text \<open>
  An awaited call of the file system or of the browser either returns or throws an
  \<open>Error\<close> with a message. What each call does is the environment's choice, given to the
  model as an argument.
\<close>

datatype 'a attempt = Returns 'a | Throws string

record init_io =
  io_readFile :: "string attempt"
  io_remove :: "unit attempt"
  io_launch :: "unit attempt"
  io_newPage :: "unit attempt"
  io_setViewport :: "unit attempt"
  io_setUserAgent :: "unit attempt"

definition read_messages :: "string \<Rightarrow> string list" where
  "read_messages fileContent =
     filter (\<lambda>msg. length msg > 0) (map trim (split (CHR 0x0A) fileContent))"

definition init_failed :: "sender \<Rightarrow> string \<Rightarrow> sender \<times> action list \<times> bool" where
  "init_failed s msg = (s, [emitStatus s St_error (''Initialization failed: '' @ msg)], False)"

definition init :: "init_io \<Rightarrow> sender \<Rightarrow> sender \<times> action list \<times> bool" where
  "init io s =
     (case io_readFile io of
        Throws m \<Rightarrow> init_failed s m
      | Returns fileContent \<Rightarrow>
          (let s1 = s\<lparr>messages := read_messages fileContent\<rparr> in
           if length (messages s1) = 0 then init_failed s1 ''No valid messages found in file''
           else
            (case io_remove io of
               Throws m \<Rightarrow> init_failed s1 m
             | Returns _ \<Rightarrow>
            (case io_launch io of
               Throws m \<Rightarrow> init_failed s1 m
             | Returns _ \<Rightarrow>
            (let s2 = s1\<lparr>browser := True\<rparr> in
            (case io_newPage io of
               Throws m \<Rightarrow> init_failed s2 m
             | Returns _ \<Rightarrow>
            (let s3 = s2\<lparr>page := True\<rparr> in
            (case io_setViewport io of
               Throws m \<Rightarrow> init_failed s3 m
             | Returns _ \<Rightarrow>
            (case io_setUserAgent io of
               Throws m \<Rightarrow> init_failed s3 m
             | Returns _ \<Rightarrow> (s3, [], True))))))))))"

text \<open>
  The \<open>try\<close> block of \<open>start\<close> up to the first status \<open>active\<close>: two navigations with the
  cookies set in between, one \<open>page.setCookie\<close> per parsed cookie, stopping at the first
  call that throws.
\<close>

record connect_io =
  io_goto_home :: "unit attempt"
  io_setCookie :: "cookie_entry \<Rightarrow> unit attempt"
  io_goto_thread :: "unit attempt"

fun set_cookies :: "(cookie_entry \<Rightarrow> unit attempt) \<Rightarrow> cookie_entry list \<Rightarrow> action list \<times> unit attempt" where
  "set_cookies f [] = ([], Returns ())"
| "set_cookies f (c # cs) =
     (case f c of
        Throws m \<Rightarrow> ([SetCookie c], Throws m)
      | Returns _ \<Rightarrow> (case set_cookies f cs of (acts, r) \<Rightarrow> (SetCookie c # acts, r)))"

definition connect :: "connect_io \<Rightarrow> sender \<Rightarrow> action list \<times> unit attempt" where
  "connect io s =
     (case io_goto_home io of
        Throws m \<Rightarrow> ([], Throws m)
      | Returns _ \<Rightarrow>
          (case set_cookies (io_setCookie io) (parseCookies (cookie (config s))) of
             (acts, Throws m) \<Rightarrow> (acts, Throws m)
           | (acts, Returns _) \<Rightarrow> (acts, io_goto_thread io)))"

text \<open>
  One pass through the body of the \<open>while\<close> loop of \<open>sendMessages\<close>. The browser calls of
  the \<open>try\<close> block either all return (\<open>Sent\<close>) or one of them throws (\<open>Failed message\<close>);
  the block throws \<open>Message textbox not found\<close> itself when no input element is found.
  The result is the task after the pass, what it did, and whether the pass left the loop
  by \<open>break\<close>. The loop is entered only after \<open>init\<close> returned true, so with a message
  list that is not empty and \<open>currentIndex\<close> inside it (lemma \<open>index_in_range\<close> below).
\<close>

datatype send_outcome = Sent | Failed string

definition textbox_missing :: string where
  "textbox_missing = ''Message textbox not found''"

definition backoff_ms :: int where
  "backoff_ms = 5000"

definition delay_ms :: "sender \<Rightarrow> int option" where
  "delay_ms s = map_option (\<lambda>d. d * 1000) (delay (config s))"

definition sent_message :: "nat \<Rightarrow> string \<Rightarrow> string" where
  "sent_message n originalMessage =
     ''Message '' @ show_nat n @ '' sent. Current: '' @ [CHR 0x22] @ take 50 originalMessage @
     (if length originalMessage > 50 then ''...'' else '''') @ [CHR 0x22]"

definition finalMessage :: "sender \<Rightarrow> string" where
  "finalMessage s =
     (let originalMessage = messages s ! currentIndex s
      in if hattersName (config s) \<noteq> [] then hattersName (config s) @ '' '' @ originalMessage
         else originalMessage)"

definition send_pass :: "send_outcome \<Rightarrow> sender \<Rightarrow> sender \<times> action list \<times> bool" where
  "send_pass outcome s =
     (let originalMessage = messages s ! currentIndex s in
      case outcome of
        Sent \<Rightarrow>
          let s1 = s\<lparr>totalSent := js_inc (totalSent s)\<rparr>;
              s2 = s1\<lparr>currentIndex := (currentIndex s1 + 1) mod length (messages s1)\<rparr>
          in (s2, [emitStatus s2 St_active (sent_message (totalSent s2) originalMessage),
                   Delay (delay_ms s2)], False)
      | Failed m \<Rightarrow>
          if js_includes m ''textbox not found''
          then (s, [emitStatus s St_error (''Error sending message: '' @ m), Delay (Some backoff_ms),
                    emitStatus s St_error ''Cannot find message input. Stopping task.''], True)
          else (s, [emitStatus s St_error (''Error sending message: '' @ m), Delay (Some backoff_ms)],
                False))"

text \<open>
  \<open>sendMessages\<close> run on its own, with no call of \<open>stop\<close> in between: the list gives the
  outcome of each pass the environment lets happen. The last component tells whether the
  loop was left (and \<open>cleanup\<close> called) or is still waiting for the next pass.
\<close>

fun sendMessages :: "send_outcome list \<Rightarrow> sender \<Rightarrow> sender \<times> action list \<times> bool" where
  "sendMessages [] s = (if isRunning s then (s, [], False) else (s, [Cleanup], True))"
| "sendMessages (outcome # rest) s =
     (if \<not> isRunning s then (s, [Cleanup], True)
      else case send_pass outcome s of
        (s1, acts, True) \<Rightarrow> (s1, acts @ [Cleanup], True)
      | (s1, acts, False) \<Rightarrow>
          (case sendMessages rest s1 of (s2, acts2, left) \<Rightarrow> (s2, acts @ acts2, left)))"

text \<open>
  \<open>start\<close>, run on its own. The result tells how far it got: it returned \<open>false\<close> after
  a failed \<open>init\<close>, it ended (after the \<open>catch\<close> block or after the loop), or it is still
  inside the loop.
\<close>

datatype start_result = Returned_false | Ended | In_loop

definition start :: "init_io \<Rightarrow> connect_io \<Rightarrow> send_outcome list \<Rightarrow> sender \<Rightarrow>
    sender \<times> action list \<times> start_result" where
  "start ini con outcomes s =
     (case init ini s of
        (s1, acts1, False) \<Rightarrow> (s1, acts1, Returned_false)
      | (s1, acts1, True) \<Rightarrow>
          (let s2 = s1\<lparr>isRunning := True\<rparr>;
               starting = emitStatus s2 St_starting ''Initializing browser and navigating to Facebook...''
           in (case connect con s2 of
                 (acts2, Throws m) \<Rightarrow>
                   (s2\<lparr>isRunning := False\<rparr>,
                    acts1 @ [starting] @ acts2 @
                      [emitStatus s2 St_error (''Failed to start: '' @ m), Cleanup], Ended)
               | (acts2, Returns _) \<Rightarrow>
                   (case sendMessages outcomes s2 of
                      (s3, acts3, left) \<Rightarrow>
                        (s3, acts1 @ [starting] @ acts2 @
                           [emitStatus s2 St_active ''Connected to Facebook. Starting message sending...''] @
                           acts3,
                         if left then Ended else In_loop)))))"

section \<open>The registry: sessionTasks and sessionBrowsers\<close>

text \<open>
  A JavaScript object used as a dictionary is the list of its own properties, in the
  order they were added (the order in which \<open>Object.keys\<close> lists keys that are not
  array indices; nothing below depends on the order). \<open>obj[k] = v\<close> replaces the value of
  an own property or adds one, \<open>delete obj[k]\<close> removes it.
\<close>

type_synonym 'v object = "(string \<times> 'v) list"

fun obj_set :: "string \<Rightarrow> 'v \<Rightarrow> 'v object \<Rightarrow> 'v object" where
  "obj_set k v [] = [(k, v)]"
| "obj_set k v (p # ps) = (if fst p = k then (k, v) # ps else p # obj_set k v ps)"

definition obj_delete :: "string \<Rightarrow> 'v object \<Rightarrow> 'v object" where
  "obj_delete k ps = filter (\<lambda>p. fst p \<noteq> k) ps"

text \<open>
  Reading \<open>obj[k]\<close> also finds what \<open>{}\<close> inherits from \<open>Object.prototype\<close>. The task
  keys are chosen by the client, so \<open>sessionTasks[sessionId][threadId]\<close> is truthy when
  the session has a task under that key, and also when the key is one of these names.
  Session ids are made by \<open>uuidv4\<close> and are never such a name, so the outer object is read
  through its own properties only.
\<close>

definition object_prototype_names :: "string list" where
  "object_prototype_names =
     [''constructor'', ''__defineGetter__'', ''__defineSetter__'', ''hasOwnProperty'',
      ''__lookupGetter__'', ''__lookupSetter__'', ''isPrototypeOf'', ''propertyIsEnumerable'',
      ''toString'', ''valueOf'', ''__proto__'', ''toLocaleString'']"

definition inherited :: "string \<Rightarrow> bool" where
  "inherited k = (k \<in> set object_prototype_names)"

definition truthy_at :: "'v object \<Rightarrow> string \<Rightarrow> bool" where
  "truthy_at obj k = (map_of obj k \<noteq> None \<or> inherited k)"

text \<open>
  \<open>start()\<close> of a task runs on its own, from one awaited call to the next; \<open>pc\<close> is the
  place where it waits. A socket is its id together with the session id of the request
  that opened it. A call of \<open>cleanup()\<close> that has a page or a browser to close waits for
  them, and \<open>stop()\<close> waits for its \<open>cleanup()\<close>: \<open>pending\<close> holds what remains to be done
  after such a wait.
\<close>

datatype pc = At_init | At_connect | At_loop | Done

datatype continuation = Delete_then_stopped | Delete_only | Stopped_only

type_synonym socket = "nat \<times> string"

record server =
  sessionTasks :: "(nat object) object"
  sessionBrowsers :: "(nat object) object"
  heap :: "(sender \<times> pc) list"
  timers :: "string list"
  pending :: "(nat \<times> continuation) list"
  rooms :: "(socket \<times> string) list"
  emitted :: "(nat \<times> string \<times> status_event) list"
  received :: "(socket \<times> nat \<times> status_event) list"

text \<open>
  The registry holds references: \<open>sessionTasks[sid][key]\<close> is the address of a task in
  \<open>heap\<close>. \<open>emitted\<close> lists every \<open>taskUpdate\<close> with the task that emitted it and the
  room it went to, \<open>received\<close> every delivery to a socket.
\<close>

definition initial :: server where
  "initial = \<lparr>sessionTasks = [], sessionBrowsers = [], heap = [], timers = [], pending = [],
              rooms = [], emitted = [], received = []\<rparr>"

definition tasks_of :: "server \<Rightarrow> string \<Rightarrow> nat object" where
  "tasks_of st sid = (case map_of (sessionTasks st) sid of Some m \<Rightarrow> m | None \<Rightarrow> [])"

definition task_at :: "server \<Rightarrow> nat \<Rightarrow> sender" where
  "task_at st a = fst (heap st ! a)"

definition pc_at :: "server \<Rightarrow> nat \<Rightarrow> pc" where
  "pc_at st a = snd (heap st ! a)"

definition initSessionTasks :: "string \<Rightarrow> server \<Rightarrow> server" where
  "initSessionTasks sid st =
     (let st1 = (if map_of (sessionTasks st) sid = None
                 then st\<lparr>sessionTasks := obj_set sid [] (sessionTasks st)\<rparr> else st)
      in if map_of (sessionBrowsers st1) sid = None
         then st1\<lparr>sessionBrowsers := obj_set sid [] (sessionBrowsers st1)\<rparr> else st1)"

text \<open>\<open>io.to(room).emit('taskUpdate', data)\<close>, called by task \<open>a\<close>.\<close>

definition publish :: "nat \<Rightarrow> string \<Rightarrow> status_event \<Rightarrow> server \<Rightarrow> server" where
  "publish a room d st =
     st\<lparr>emitted := emitted st @ [(a, room, d)],
        received := received st @ map (\<lambda>m. (fst m, a, d)) (filter (\<lambda>m. snd m = room) (rooms st))\<rparr>"

text \<open>
  The end of \<open>cleanup()\<close>: the entries under the task's own session id and task id are
  deleted, whatever they hold.
\<close>

definition remove_task :: "nat \<Rightarrow> server \<Rightarrow> server" where
  "remove_task a st =
     (let s = task_at st a;
          st1 = (case map_of (sessionTasks st) (sessionId s) of
                   Some m \<Rightarrow> st\<lparr>sessionTasks := obj_set (sessionId s) (obj_delete (taskId s) m) (sessionTasks st)\<rparr>
                 | None \<Rightarrow> st)
      in case map_of (sessionBrowsers st1) (sessionId s) of
           Some m \<Rightarrow> st1\<lparr>sessionBrowsers := obj_set (sessionId s) (obj_delete (taskId s) m) (sessionBrowsers st1)\<rparr>
         | None \<Rightarrow> st1)"

text \<open>
  \<open>cleanup()\<close> called by task \<open>a\<close>; \<open>from_stop\<close> tells that the caller is \<open>stop()\<close>,
  which emits \<open>stopped\<close> once its \<open>await this.cleanup()\<close> is over. With a page or a
  browser to close the deletion waits for them; with neither, \<open>cleanup()\<close> has nothing to
  await and deletes at once.
\<close>

definition cleanup :: "nat \<Rightarrow> bool \<Rightarrow> server \<Rightarrow> server" where
  "cleanup a from_stop st =
     (let s = task_at st a in
      if page s \<or> browser s
      then st\<lparr>pending := pending st @ [(a, if from_stop then Delete_then_stopped else Delete_only)]\<rparr>
      else let st1 = remove_task a st
           in if from_stop then st1\<lparr>pending := pending st1 @ [(a, Stopped_only)]\<rparr> else st1)"

definition stopped_event :: "sender \<Rightarrow> action" where
  "stopped_event s =
     emitStatus s St_stopped (''Task stopped. Total messages sent: '' @ show_nat (totalSent s))"

definition perform :: "nat \<Rightarrow> action \<Rightarrow> server \<Rightarrow> server" where
  "perform a act st =
     (case act of
        Emit room d \<Rightarrow> publish a room d st
      | Delay _ \<Rightarrow> st
      | SetCookie _ \<Rightarrow> st
      | Cleanup \<Rightarrow> cleanup a False st)"

fun perform_all :: "nat \<Rightarrow> action list \<Rightarrow> server \<Rightarrow> server" where
  "perform_all a [] st = st"
| "perform_all a (act # acts) st = perform_all a acts (perform a act st)"

text \<open>
  The \<open>try\<close> block of \<open>cleanup()\<close>: \<open>this.page.close()\<close> and \<open>this.browser.close()\<close>
  are awaited in turn, each only when the task has the page or the browser, and the
  second call is not reached when the first throws.
\<close>

definition try_close :: "sender \<Rightarrow> unit attempt \<Rightarrow> unit attempt \<Rightarrow> unit attempt" where
  "try_close s page_close browser_close =
     (case (if page s then page_close else Returns ()) of
        Throws m \<Rightarrow> Throws m
      | Returns _ \<Rightarrow> (if browser s then browser_close else Returns ()))"

text \<open>
  \<open>cleanup()\<close> from its \<open>try\<close> block on, given the outcomes of the two calls: the
  \<open>catch\<close> block logs what was thrown; in both cases the entries are then deleted and
  \<open>cleanup()\<close> returns. The first component is how the call ends.
\<close>

definition finish_cleanup :: "nat \<Rightarrow> unit attempt \<Rightarrow> unit attempt \<Rightarrow> server \<Rightarrow> unit attempt \<times> server" where
  "finish_cleanup a page_close browser_close st =
     (case try_close (task_at st a) page_close browser_close of
        Throws m \<Rightarrow> (Returns (), remove_task a st)
      | Returns _ \<Rightarrow> (Returns (), remove_task a st))"

text \<open>
  What remains to be done after a wait, and how the call that waited (\<open>cleanup()\<close>, or
  \<open>stop()\<close> at its \<open>await this.cleanup()\<close>) ends: \<open>stop()\<close> emits \<open>stopped\<close> when its
  \<open>cleanup()\<close> has returned, and would throw what \<open>cleanup()\<close> throws.
\<close>

definition resume :: "nat \<Rightarrow> continuation \<Rightarrow> unit attempt \<Rightarrow> unit attempt \<Rightarrow> server \<Rightarrow>
    unit attempt \<times> server" where
  "resume a c page_close browser_close st =
     (case c of
        Delete_only \<Rightarrow> finish_cleanup a page_close browser_close st
      | Delete_then_stopped \<Rightarrow>
          (case finish_cleanup a page_close browser_close st of
             (Throws m, st1) \<Rightarrow> (Throws m, st1)
           | (Returns _, st1) \<Rightarrow> (Returns (), perform a (stopped_event (task_at st1 a)) st1))
      | Stopped_only \<Rightarrow> (Returns (), perform a (stopped_event (task_at st a)) st))"

definition write_task :: "nat \<Rightarrow> sender \<Rightarrow> pc \<Rightarrow> server \<Rightarrow> server" where
  "write_task a s p st = st\<lparr>heap := (heap st)[a := (s, p)]\<rparr>"

text \<open>\<open>stop()\<close> up to its \<open>await this.cleanup()\<close>.\<close>

definition stop :: "nat \<Rightarrow> nat \<Rightarrow> server \<Rightarrow> server" where
  "stop a now st =
     (let s = (task_at st a)\<lparr>isRunning := False, stopTime := Some now\<rparr>;
          st1 = write_task a s (pc_at st a) st;
          st2 = perform a (emitStatus s St_stopping ''Stopping task...'') st1
      in cleanup a True st2)"

section \<open>The routes\<close>

text \<open>
  The fields of the multipart body are strings; a field that is absent and one that is
  empty are both falsy and are both the empty string here. \<open>req_file\<close> is the path of
  the uploaded file, if there is one.
\<close>

record start_request =
  req_cookie :: string
  req_threadId :: string
  req_hattersName :: string
  req_delay :: string
  req_file :: "string option"

datatype reply =
    Missing_fields
  | Already_running
  | Started string string
  | Not_found
  | Stop_ok
  | Server_error

definition post_start_task :: "string \<Rightarrow> start_request \<Rightarrow> nat \<Rightarrow> server \<Rightarrow> reply \<times> server" where
  "post_start_task sid req now st =
     (let st1 = initSessionTasks sid st in
      case req_file req of
        None \<Rightarrow> (Missing_fields, st1)
      | Some path \<Rightarrow>
          if req_cookie req = [] \<or> req_threadId req = [] \<or> req_delay req = []
          then (Missing_fields, st1)
          else if truthy_at (tasks_of st1 sid) (req_threadId req)
          then (Already_running, st1)
          else
            (let tid = req_threadId req;
                 cfg = \<lparr>cookie = req_cookie req, threadId = req_threadId req,
                        hattersName = req_hattersName req, delay = parseInt (req_delay req),
                        filePath = path\<rparr>;
                 a = length (heap st1);
                 st2 = st1\<lparr>heap := heap st1 @ [(new_sender tid cfg sid now, At_init)],
                           sessionTasks := obj_set sid (obj_set tid a (tasks_of st1 sid)) (sessionTasks st1)\<rparr>
             in (Started tid sid, st2)))"

definition post_stop_task :: "string \<Rightarrow> string \<Rightarrow> nat \<Rightarrow> server \<Rightarrow> reply \<times> server" where
  "post_stop_task sid tid now st =
     (if tid = [] \<or> map_of (sessionTasks st) sid = None \<or> \<not> truthy_at (tasks_of st sid) tid
      then (Not_found, st)
      else case map_of (tasks_of st sid) tid of
             None \<Rightarrow> (Server_error, st)
           | Some a \<Rightarrow> (Stop_ok, stop a now st))"

record task_summary =
  sum_taskId :: string
  sum_isRunning :: bool
  sum_totalSent :: nat
  sum_currentIndex :: nat
  sum_totalMessages :: nat
  sum_sessionId :: string

definition summary :: "server \<Rightarrow> string \<Rightarrow> string \<times> nat \<Rightarrow> task_summary" where
  "summary st sid entry =
     (let s = task_at st (snd entry) in
      \<lparr>sum_taskId = fst entry, sum_isRunning = isRunning s, sum_totalSent = totalSent s,
       sum_currentIndex = currentIndex s, sum_totalMessages = length (messages s),
       sum_sessionId = sid\<rparr>)"

definition get_active_tasks :: "string \<Rightarrow> server \<Rightarrow> task_summary list \<times> server" where
  "get_active_tasks sid st =
     (let st1 = initSessionTasks sid st in (map (summary st1 sid) (tasks_of st1 sid), st1))"

definition get_session_info :: "string \<Rightarrow> server \<Rightarrow> nat" where
  "get_session_info sid st = length (tasks_of st sid)"

section \<open>Sockets, the periodic sweep, and the steps of the tasks\<close>

definition socket_connect :: "socket \<Rightarrow> server \<Rightarrow> server" where
  "socket_connect k st = st\<lparr>rooms := rooms st @ [(k, snd k)]\<rparr>"

definition socket_disconnect :: "socket \<Rightarrow> server \<Rightarrow> server" where
  "socket_disconnect k st = st\<lparr>rooms := filter (\<lambda>m. fst m \<noteq> k) (rooms st)\<rparr>"

fun report_running :: "nat list \<Rightarrow> server \<Rightarrow> server" where
  "report_running [] st = st"
| "report_running (a # as) st =
     (let s = task_at st a in
      report_running as
        (if isRunning s
         then perform a (emitStatus s St_active
                 (''Task running - '' @ show_nat (totalSent s) @ '' messages sent'')) st
         else st))"

definition socket_getSessionTasks :: "socket \<Rightarrow> server \<Rightarrow> server" where
  "socket_getSessionTasks k st =
     (if k \<in> fst ` set (rooms st) then report_running (map snd (tasks_of st (snd k))) st else st)"

text \<open>
  The callback of \<open>setInterval\<close>: every session whose task object is empty gets a timer.
  The callback of such a timer, an hour later, deletes the session's entries; timers of
  one delay fire in the order they were set.
\<close>

definition sweep :: "server \<Rightarrow> server" where
  "sweep st =
     st\<lparr>timers := timers st @ map fst (filter (\<lambda>e. length (snd e) = 0) (sessionTasks st))\<rparr>"

definition timer_fires :: "server \<Rightarrow> server" where
  "timer_fires st =
     (case timers st of
        [] \<Rightarrow> st
      | sid # rest \<Rightarrow>
          st\<lparr>timers := rest, sessionTasks := obj_delete sid (sessionTasks st),
             sessionBrowsers := obj_delete sid (sessionBrowsers st)\<rparr>)"

definition task_init :: "nat \<Rightarrow> init_io \<Rightarrow> server \<Rightarrow> server" where
  "task_init a io st =
     (if a < length (heap st) \<and> pc_at st a = At_init
      then case init io (task_at st a) of
             (s1, acts, False) \<Rightarrow> perform_all a acts (write_task a s1 Done st)
           | (s1, acts, True) \<Rightarrow>
               let s2 = s1\<lparr>isRunning := True\<rparr>
               in perform_all a
                    (acts @ [emitStatus s2 St_starting
                               ''Initializing browser and navigating to Facebook...''])
                    (write_task a s2 At_connect st)
      else st)"

definition task_connect :: "nat \<Rightarrow> connect_io \<Rightarrow> server \<Rightarrow> server" where
  "task_connect a io st =
     (if a < length (heap st) \<and> pc_at st a = At_connect
      then let s = task_at st a in
           case connect io s of
             (acts, Throws m) \<Rightarrow>
               perform_all a
                 (acts @ [emitStatus s St_error (''Failed to start: '' @ m), Cleanup])
                 (write_task a (s\<lparr>isRunning := False\<rparr>) Done st)
           | (acts, Returns _) \<Rightarrow>
               perform_all a
                 (acts @ [emitStatus s St_active
                            ''Connected to Facebook. Starting message sending...''])
                 (write_task a s At_loop st)
      else st)"

definition task_pass :: "nat \<Rightarrow> send_outcome \<Rightarrow> server \<Rightarrow> server" where
  "task_pass a outcome st =
     (if a < length (heap st) \<and> pc_at st a = At_loop
      then let s = task_at st a in
           if \<not> isRunning s then perform a Cleanup (write_task a s Done st)
           else case send_pass outcome s of
                  (s1, acts, True) \<Rightarrow> perform_all a (acts @ [Cleanup]) (write_task a s1 Done st)
                | (s1, acts, False) \<Rightarrow> perform_all a acts (write_task a s1 At_loop st)
      else st)"

text \<open>
  The wait of entry \<open>i\<close> of \<open>pending\<close> is over (pages close in any order), with the
  given outcomes of \<open>page.close()\<close> and \<open>browser.close()\<close>, and what remained to be done
  is done. Nothing awaits the promise of \<open>stop()\<close> or of the \<open>start()\<close> that called
  \<open>cleanup()\<close>, so how the call ends leaves no trace in the server.
\<close>

definition resume_at :: "nat \<Rightarrow> unit attempt \<Rightarrow> unit attempt \<Rightarrow> server \<Rightarrow> server" where
  "resume_at i page_close browser_close st =
     (if i < length (pending st)
      then snd (resume (fst (pending st ! i)) (snd (pending st ! i)) page_close browser_close
                  (st\<lparr>pending := take i (pending st) @ drop (Suc i) (pending st)\<rparr>))
      else st)"

text \<open>
  The server moves by the steps below: a request to a route, an event of a socket, the
  sweep or a timer firing, a stretch of the \<open>start()\<close> of one task (\<open>init\<close> with the
  status \<open>starting\<close>, the connection, one pass of the loop), or the end of a wait for
  \<open>cleanup()\<close>. Each stretch is taken as one step, although it waits for the browser
  several times: a \<open>stop()\<close> that arrives during such a wait is taken to arrive before
  or after the stretch. The handler of \<open>SIGINT\<close> calls \<open>stop()\<close> on the registered
  tasks one after the other and then ends the process; what it does to the server is
  what stop requests for these tasks do. An address held by the registry or by
  \<open>pending\<close> is always the address of a task in the heap (lemma \<open>inv_reachable\<close>
  below), so the heap is never read out of range.
\<close>

datatype op =
    Get_root string
  | Post_start_task string start_request nat
  | Post_stop_task string string nat
  | Get_active_tasks string
  | Socket_connect socket
  | Socket_disconnect socket
  | Socket_getSessionTasks socket
  | Sweep
  | Timer_fires
  | Task_init nat init_io
  | Task_connect nat connect_io
  | Task_pass nat send_outcome
  | Resume nat "unit attempt" "unit attempt"

fun exec :: "op \<Rightarrow> server \<Rightarrow> server" where
  "exec (Get_root sid) st = initSessionTasks sid st"
| "exec (Post_start_task sid req now) st = snd (post_start_task sid req now st)"
| "exec (Post_stop_task sid tid now) st = snd (post_stop_task sid tid now st)"
| "exec (Get_active_tasks sid) st = snd (get_active_tasks sid st)"
| "exec (Socket_connect k) st = socket_connect k st"
| "exec (Socket_disconnect k) st = socket_disconnect k st"
| "exec (Socket_getSessionTasks k) st = socket_getSessionTasks k st"
| "exec Sweep st = sweep st"
| "exec Timer_fires st = timer_fires st"
| "exec (Task_init a io) st = task_init a io st"
| "exec (Task_connect a io) st = task_connect a io st"
| "exec (Task_pass a outcome) st = task_pass a outcome st"
| "exec (Resume i page_close browser_close) st = resume_at i page_close browser_close st"

fun run :: "op list \<Rightarrow> server \<Rightarrow> server" where
  "run [] st = st"
| "run (x # xs) st = run xs (exec x st)"

section \<open>Reading the actions of a task, and example inputs\<close>

text \<open>The \<open>active\<close> events among the actions of a task, in order.\<close>

fun active_events :: "action list \<Rightarrow> status_event list" where
  "active_events [] = []"
| "active_events (Emit room d # acts) =
     (if ev_status d = St_active then d # active_events acts else active_events acts)"
| "active_events (_ # acts) = active_events acts"

text \<open>
  A request as the upload form sends it, the task made from it, and an environment in
  which the file holds the two lines \<open>hi\<close> and \<open>there\<close> and every call returns.
\<close>

definition example_request :: "string \<Rightarrow> string \<Rightarrow> start_request" where
  "example_request tid secs =
     \<lparr>req_cookie = ''c_user=100; xs=4'', req_threadId = tid, req_hattersName = [],
      req_delay = secs, req_file = Some ''uploads/1-messages.txt''\<rparr>"

definition example_config :: "string \<Rightarrow> config" where
  "example_config secs =
     \<lparr>cookie = ''c_user=100; xs=4'', threadId = ''t1'', hattersName = [],
      delay = parseInt secs, filePath = ''uploads/1-messages.txt''\<rparr>"

definition example_init_io :: "string \<Rightarrow> init_io" where
  "example_init_io fileContent =
     \<lparr>io_readFile = Returns fileContent, io_remove = Returns (), io_launch = Returns (),
      io_newPage = Returns (), io_setViewport = Returns (), io_setUserAgent = Returns ()\<rparr>"

definition example_connect_io :: connect_io where
  "example_connect_io =
     \<lparr>io_goto_home = Returns (), io_setCookie = (\<lambda>_. Returns ()), io_goto_thread = Returns ()\<rparr>"

definition hi_there :: string where
  "hi_there = ''hi'' @ [CHR 0x0A] @ ''there'' @ [CHR 0x0A]"

text \<open>The task of the example once it is in its loop.\<close>

definition example_task :: "string \<Rightarrow> sender" where
  "example_task secs =
     (new_sender ''t1'' (example_config secs) ''s1'' 0)
       \<lparr>messages := [''hi'', ''there''], browser := True, page := True, isRunning := True\<rparr>"

section \<open>Invariants of the server\<close>

text \<open>
  Every entry of the registry refers to a task in the heap that carries the session id
  and the key it is filed under, whose target \<open>threadId\<close> is that key, and whose key is
  no inherited name.
\<close>

definition registry_ok :: "server \<Rightarrow> bool" where
  "registry_ok st \<longleftrightarrow>
     (\<forall>e \<in> set (sessionTasks st). \<forall>p \<in> set (snd e).
        snd p < length (heap st) \<and>
        sessionId (task_at st (snd p)) = fst e \<and>
        taskId (task_at st (snd p)) = fst p \<and>
        threadId (config (task_at st (snd p))) = fst p \<and>
        \<not> inherited (fst p))"

text \<open>
  A socket is in the room of its own session only; an event is emitted to the room of
  the session of its task, carries that session id, and is received only by sockets of
  that session.
\<close>

definition delivery_ok :: "server \<Rightarrow> bool" where
  "delivery_ok st \<longleftrightarrow>
     (\<forall>m \<in> set (rooms st). snd m = snd (fst m)) \<and>
     (\<forall>e \<in> set (emitted st).
        fst e < length (heap st) \<and>
        fst (snd e) = sessionId (task_at st (fst e)) \<and>
        ev_sessionId (snd (snd e)) = sessionId (task_at st (fst e))) \<and>
     (\<forall>r \<in> set (received st).
        fst (snd r) < length (heap st) \<and>
        sessionId (task_at st (fst (snd r))) = snd (fst r) \<and>
        ev_sessionId (snd (snd r)) = snd (fst r)) \<and>
     (\<forall>c \<in> set (pending st). fst c < length (heap st))"

definition own_actions :: "string \<Rightarrow> action list \<Rightarrow> bool" where
  "own_actions sid acts \<longleftrightarrow>
     (\<forall>act \<in> set acts. case act of Emit room d \<Rightarrow> room = sid \<and> ev_sessionId d = sid | _ \<Rightarrow> True)"

text \<open>The events of status \<open>st\<close> that task \<open>a\<close> has emitted.\<close>

definition events_of :: "server \<Rightarrow> nat \<Rightarrow> status \<Rightarrow> (nat \<times> string \<times> status_event) list" where
  "events_of srv a st = filter (\<lambda>e. fst e = a \<and> ev_status (snd (snd e)) = st) (emitted srv)"

definition same_ident :: "sender \<Rightarrow> sender \<Rightarrow> bool" where
  "same_ident s s' \<longleftrightarrow>
     sessionId s' = sessionId s \<and> taskId s' = taskId s \<and>
     threadId (config s') = threadId (config s)"

definition inv :: "server \<Rightarrow> bool" where
  "inv st \<longleftrightarrow> registry_ok st \<and> delivery_ok st"

definition fields_present :: "start_request \<Rightarrow> bool" where
  "fields_present req \<longleftrightarrow>
     req_cookie req \<noteq> [] \<and> req_threadId req \<noteq> [] \<and> req_file req \<noteq> None \<and> req_delay req \<noteq> []"

text \<open>
  Two sessions start a task under the same key \<open>t1\<close> and a socket of the second session
  connects; the task of the first session passes \<open>init\<close>, connects and sends its first
  message; the task of the second session passes \<open>init\<close> and emits \<open>starting\<close>.
\<close>

definition two_sessions :: "op list" where
  "two_sessions =
     [Post_start_task ''s1'' (example_request ''t1'' ''1'') 5,
      Post_start_task ''s2'' (example_request ''t1'' ''1'') 6,
      Socket_connect (7, ''s2''),
      Task_init 0 (example_init_io hi_there),
      Task_connect 0 example_connect_io,
      Task_pass 0 Sent,
      Task_init 1 (example_init_io hi_there)]"

text \<open>Every task's key is its target: \<open>taskId\<close> is the \<open>threadId\<close> of its configuration.\<close>

definition keys_ok :: "server \<Rightarrow> bool" where
  "keys_ok st \<longleftrightarrow> (\<forall>c \<in> set (heap st). taskId (fst c) = threadId (config (fst c)))"

text \<open>
  A session is opened and found empty by the sweep, which sets its timer; within the
  hour a task is started in the session.
\<close>

definition grace_window :: "op list" where
  "grace_window =
     [Get_root ''s1'', Sweep, Post_start_task ''s1'' (example_request ''t1'' ''1'') 5]"

text \<open>
  A task is started and stopped before its \<open>init\<close> has run, when it has neither a page
  nor a browser.
\<close>

definition just_started :: "op list" where
  "just_started = [Post_start_task ''s1'' (example_request ''t1'' ''1'') 5]"

definition stopped_early :: "op list" where
  "stopped_early = just_started @ [Post_stop_task ''s1'' ''t1'' 9]"

text \<open>
  A task is started and reaches its loop (\<open>in_loop\<close>); a stop request arrives
  (\<open>stopping\<close>), and the call of \<open>stop()\<close> resumes once the page is closed (\<open>stop_once\<close>).
  In \<open>stop_twice\<close> a second stop request arrives while the page is still being closed,
  and both calls of \<open>stop()\<close> resume, the second after a \<open>page.close()\<close> that throws.
\<close>

definition in_loop :: "op list" where
  "in_loop =
     [Post_start_task ''s1'' (example_request ''t1'' ''1'') 5,
      Task_init 0 (example_init_io hi_there),
      Task_connect 0 example_connect_io]"

definition stopping :: "op list" where
  "stopping = in_loop @ [Post_stop_task ''s1'' ''t1'' 9]"

definition stop_once :: "op list" where
  "stop_once = stopping @ [Resume 0 (Returns ()) (Returns ())]"

definition stop_twice :: "op list" where
  "stop_twice =
     stopping @
     [Post_stop_task ''s1'' ''t1'' 10,
      Resume 0 (Returns ()) (Returns ()),
      Resume 0 (Throws ''Protocol error: Target closed'') (Returns ())]"

text \<open>
  After \<open>stop_once\<close> the loop of the stopped task wakes up, finds \<open>isRunning\<close> false and
  calls \<open>cleanup()\<close> itself (\<open>stop_then_exit\<close>). In \<open>error_then_stop\<close> the loop ends by
  the error path, and the stop request arrives while the page is being closed by the
  \<open>cleanup()\<close> of that path.
\<close>

definition stop_then_exit :: "op list" where
  "stop_then_exit =
     stop_once @
     [Task_pass 0 Sent, Resume 0 (Throws ''Protocol error: Target closed'') (Returns ())]"

definition error_then_stop :: "op list" where
  "error_then_stop =
     in_loop @
     [Task_pass 0 (Failed textbox_missing),
      Post_stop_task ''s1'' ''t1'' 10,
      Resume 0 (Returns ()) (Returns ()),
      Resume 0 (Throws ''Protocol error: Target closed'') (Returns ())]"

text \<open>
  After \<open>stop_once\<close> a new task is started under the same key (\<open>restarted\<close>); then the
  loop of the old task wakes up and calls \<open>cleanup()\<close> (\<open>late_cleanup\<close>).
\<close>

definition restarted :: "op list" where
  "restarted = stop_once @ [Post_start_task ''s1'' (example_request ''t1'' ''1'') 11]"

definition late_cleanup :: "op list" where
  "late_cleanup =
     restarted @
     [Task_pass 0 Sent, Resume 0 (Throws ''Protocol error: Target closed'') (Returns ())]"

section \<open>How a handler changes a task\<close>

text \<open>The events among the actions of a task, with their rooms.\<close>

fun emits :: "action list \<Rightarrow> (string \<times> status_event) list" where
  "emits [] = []"
| "emits (Emit room d # acts) = (room, d) # emits acts"
| "emits (_ # acts) = emits acts"

text \<open>
  What one handler can do to a task \<open>s\<close> waiting at \<open>p\<close>: \<open>init\<close> fails, \<open>init\<close>
  succeeds, the connection or a pass of the loop is made, or (last line) the task is
  stopped or merely reports; \<open>acts\<close> is what the task does meanwhile.
\<close>

definition transition :: "sender \<Rightarrow> pc \<Rightarrow> sender \<Rightarrow> pc \<Rightarrow> action list \<Rightarrow> bool" where
  "transition s p s' p' acts \<longleftrightarrow>
     (p = At_init \<and> p' = Done \<and> isRunning s' = isRunning s \<and>
      currentIndex s' = currentIndex s \<and> active_events acts = []) \<or>
     (p = At_init \<and> p' = At_connect \<and> messages s' \<noteq> [] \<and> currentIndex s' = currentIndex s) \<or>
     ((p = At_connect \<or> p = At_loop) \<and> (p' = Done \<or> p' = At_loop) \<and> messages s' = messages s \<and>
      (messages s \<noteq> [] \<longrightarrow>
         currentIndex s' = currentIndex s \<or> currentIndex s' < length (messages s))) \<or>
     (p' = p \<and> messages s' = messages s \<and> currentIndex s' = currentIndex s \<and>
      (isRunning s' \<longrightarrow> isRunning s) \<and> active_events acts = [])"

definition task_step :: "server \<Rightarrow> server \<Rightarrow> bool" where
  "task_step st st' \<longleftrightarrow>
     (\<exists>b s' p' acts. b < length (heap st) \<and>
        transition (task_at st b) (pc_at st b) s' p' acts \<and>
        heap st' = (heap st)[b := (s', p')] \<and>
        emitted st' = emitted st @ map (\<lambda>e. (b, fst e, snd e)) (emits acts))"

definition shape :: "server \<Rightarrow> server \<Rightarrow> bool" where
  "shape st st' \<longleftrightarrow>
     (heap st' = heap st \<and> emitted st' = emitted st) \<or>
     task_step st st' \<or>
     (\<exists>c. heap st' = heap st @ [(c, At_init)] \<and> \<not> isRunning c \<and> currentIndex c = 0 \<and>
          emitted st' = emitted st) \<or>
     (heap st' = heap st \<and>
      (\<forall>a. \<not> isRunning (task_at st a) \<longrightarrow> events_of st' a St_active = events_of st a St_active))"

text \<open>
  A task that has not passed \<open>init\<close>, or that ended with an empty message list, is not
  running and has emitted no \<open>active\<close> event; a task that is connecting or in its loop has
  a message list that is not empty.
\<close>

definition cell_ok :: "server \<Rightarrow> nat \<Rightarrow> bool" where
  "cell_ok st a \<longleftrightarrow>
     (pc_at st a = At_init \<or> (pc_at st a = Done \<and> messages (task_at st a) = []) \<longrightarrow>
        \<not> isRunning (task_at st a) \<and> events_of st a St_active = []) \<and>
     (pc_at st a = At_connect \<or> pc_at st a = At_loop \<longrightarrow> messages (task_at st a) \<noteq> [])"

definition cells_ok :: "server \<Rightarrow> bool" where
  "cells_ok st \<longleftrightarrow> (\<forall>a < length (heap st). cell_ok st a)"

text \<open>
  The cursor of a task is 0 until \<open>init\<close> has run, and inside the message list while
  the task is connecting or in its loop: \<open>this.messages[this.currentIndex]\<close> is read in
  range.
\<close>

definition index_ok :: "server \<Rightarrow> bool" where
  "index_ok st \<longleftrightarrow>
     (\<forall>a < length (heap st).
        (pc_at st a = At_init \<longrightarrow> currentIndex (task_at st a) = 0) \<and>
        (pc_at st a = At_connect \<or> pc_at st a = At_loop \<longrightarrow>
           currentIndex (task_at st a) < length (messages (task_at st a))))"

text \<open>A file of blank lines only, and what may follow the failed \<open>init\<close> of its task.\<close>

definition blank_lines :: string where
  "blank_lines = ''  '' @ [CHR 0x0A] @ [CHR 0x09, CHR 0x0D, CHR 0x0A]"

definition after_failed_init :: "op list" where
  "after_failed_init =
     [Socket_connect (7, ''s1''),
      Socket_getSessionTasks (7, ''s1''),
      Task_connect 0 example_connect_io,
      Task_pass 0 Sent,
      Post_stop_task ''s1'' ''t1'' 9,
      Resume 0 (Returns ()) (Returns ())]"

section \<open>Facts about strings\<close>

lemma split_from_append:
  "c \<notin> set a \<Longrightarrow> split_from c cur (a @ c # b) = rev (rev a @ cur) # split_from c [] b"
  by (induction a arbitrary: cur) auto

lemma split_from_none: "c \<notin> set a \<Longrightarrow> split_from c cur a = [rev (rev a @ cur)]"
  by (induction a arbitrary: cur) auto

lemma split_append: "c \<notin> set a \<Longrightarrow> split c (a @ c # b) = a # split c b"
  by (simp add: split_def split_from_append)

lemma split_none: "c \<notin> set a \<Longrightarrow> split c a = [a]"
  by (simp add: split_def split_from_none)

lemma split_from_pieces:
  "c \<notin> set cur \<Longrightarrow> \<forall>p \<in> set (split_from c cur s). c \<notin> set p"
proof (induction s arbitrary: cur)
  case Nil
  then show ?case by simp
next
  case (Cons x xs)
  show ?case
  proof (cases "x = c")
    case True
    then show ?thesis
      using Cons.prems Cons.IH [of "[]"] by simp
  next
    case False
    then show ?thesis
      using Cons.prems Cons.IH [of "x # cur"] by simp
  qed
qed

lemma split_pieces: "p \<in> set (split c s) \<Longrightarrow> c \<notin> set p"
  using split_from_pieces [of c "[]" s] by (simp add: split_def)

lemma dropWhile_stop: "\<not> P y \<Longrightarrow> dropWhile P (xs @ y # ys) = dropWhile P xs @ y # ys"
  by (induction xs) auto

lemma set_trim: "set (trim s) \<subseteq> set s"
proof -
  have "set (trim s) = set (dropWhile is_ws (rev (dropWhile is_ws s)))"
    by (simp add: trim_def)
  also have "\<dots> \<subseteq> set (rev (dropWhile is_ws s))"
    by (rule set_dropWhileD [THEN subsetI])
  also have "\<dots> \<subseteq> set s"
    using set_dropWhileD [of _ is_ws s] by auto
  finally show ?thesis .
qed

lemma trim_empty_iff: "trim s = [] \<longleftrightarrow> dropWhile is_ws s = []"
proof
  assume "trim s = []"
  then have e: "dropWhile is_ws (rev (dropWhile is_ws s)) = []"
    by (simp add: trim_def)
  show "dropWhile is_ws s = []"
  proof (cases "dropWhile is_ws s")
    case Nil
    then show ?thesis .
  next
    case (Cons x xs)
    then have "\<not> is_ws x"
      using hd_dropWhile [of is_ws s] by simp
    with Cons have "dropWhile is_ws (rev (dropWhile is_ws s)) = dropWhile is_ws (rev xs) @ [x]"
      by (simp add: dropWhile_stop)
    with e show ?thesis by simp
  qed
next
  assume a: "dropWhile is_ws s = []"
  show "trim s = []" unfolding trim_def a by simp
qed

lemma trim_empty_all: "trim s = [] \<longleftrightarrow> (\<forall>x \<in> set s. is_ws x)"
  by (simp add: trim_empty_iff)

lemma trim_dropWhile: "trim (dropWhile is_ws s) = trim s"
  by (simp add: trim_def)

lemma trim_rtrim: "trim (rev (dropWhile is_ws (rev v))) = trim v"
proof (cases "dropWhile is_ws v")
  case Nil
  then have "\<forall>x \<in> set v. is_ws x" by simp
  then have b: "dropWhile is_ws (rev v) = []" by simp
  show ?thesis unfolding trim_def b Nil by simp
next
  case (Cons x b)
  then have x: "\<not> is_ws x"
    using hd_dropWhile [of is_ws v] by simp
  let ?tw = "takeWhile is_ws v"
  let ?rb = "dropWhile is_ws (rev b)"
  have v: "v = ?tw @ x # b"
    using Cons takeWhile_dropWhile_id [of is_ws v] by simp
  have "dropWhile is_ws (rev v) = dropWhile is_ws (rev b @ x # rev ?tw)"
    using v by (metis rev.simps(2) rev_append append.assoc append_Cons append_Nil)
  also have "\<dots> = ?rb @ x # rev ?tw"
    using x by (rule dropWhile_stop)
  finally have "rev (dropWhile is_ws (rev v)) = ?tw @ x # rev ?rb"
    by simp
  moreover have "dropWhile is_ws (?tw @ x # rev ?rb) = dropWhile is_ws ?tw @ x # rev ?rb"
    using x by (rule dropWhile_stop)
  moreover have "dropWhile is_ws ?tw = []"
    by (simp add: dropWhile_eq_Nil_conv) (meson set_takeWhileD)
  ultimately have l: "dropWhile is_ws (rev (dropWhile is_ws (rev v))) = x # rev ?rb"
    by simp
  have "dropWhile is_ws (rev (x # rev ?rb)) = dropWhile is_ws (?rb @ [x])"
    by simp
  also have "\<dots> = dropWhile is_ws ?rb @ [x]"
    using x by (rule dropWhile_stop)
  finally have lhs: "trim (rev (dropWhile is_ws (rev v))) = x # rev ?rb"
    using l by (simp add: trim_def)
  have "dropWhile is_ws (rev (x # b)) = ?rb @ [x]"
    using dropWhile_stop [of is_ws x "rev b" "[]"] x by simp
  then have "trim v = x # rev ?rb"
    using Cons by (simp add: trim_def)
  with lhs show ?thesis by simp
qed

lemma not_ws_eq: "\<not> is_ws (CHR ''='')"
  by (simp add: is_ws_def)

lemma dropWhile_ws_eq:
  "dropWhile is_ws (xs @ CHR ''='' # ys) = dropWhile is_ws xs @ CHR ''='' # ys"
  using not_ws_eq by (rule dropWhile_stop)

lemma trim_pair:
  "trim (n @ CHR ''='' # t) = dropWhile is_ws n @ CHR ''='' # rev (dropWhile is_ws (rev t))"
proof -
  have "dropWhile is_ws (rev (dropWhile is_ws n @ CHR ''='' # t)) =
        dropWhile is_ws (rev t) @ CHR ''='' # rev (dropWhile is_ws n)"
    using dropWhile_ws_eq [of "rev t" "rev (dropWhile is_ws n)"] by simp
  then show ?thesis
    by (simp add: trim_def dropWhile_ws_eq)
qed

section \<open>Facts about parseCookies\<close>

lemma push_pair_acc: "push_pair cookies pair = cookies @ push_pair [] pair"
  by (simp add: push_pair_def split: list.splits)

lemma parse_pairs_acc: "parse_pairs cookies pairs = cookies @ parse_pairs [] pairs"
proof (induction pairs arbitrary: cookies)
  case Nil
  then show ?case by simp
next
  case (Cons pair pairs)
  have "parse_pairs cookies (pair # pairs) = push_pair cookies pair @ parse_pairs [] pairs"
    using Cons.IH [of "push_pair cookies pair"] by simp
  also have "\<dots> = cookies @ push_pair [] pair @ parse_pairs [] pairs"
    using push_pair_acc [of cookies pair] by simp
  also have "\<dots> = cookies @ parse_pairs [] (pair # pairs)"
    using Cons.IH [of "push_pair [] pair"] by simp
  finally show ?case .
qed

lemma parseCookies_fragment:
  "CHR '';'' \<notin> set f \<Longrightarrow> parseCookies f = push_pair [] f"
  by (simp add: parseCookies_def split_none)

lemma parseCookies_append:
  assumes "CHR '';'' \<notin> set a"
  shows "parseCookies (a @ CHR '';'' # b) = parseCookies a @ parseCookies b"
proof -
  have "parseCookies (a @ CHR '';'' # b) = parse_pairs (push_pair [] a) (split (CHR '';'') b)"
    using assms by (simp add: parseCookies_def split_append)
  also have "\<dots> = push_pair [] a @ parse_pairs [] (split (CHR '';'') b)"
    by (rule parse_pairs_acc)
  also have "push_pair [] a = parseCookies a"
    using assms by (simp add: parseCookies_fragment)
  finally show ?thesis
    by (simp add: parseCookies_def)
qed

lemma push_pair_no_eq:
  "e \<in> set (push_pair [] pair) \<Longrightarrow>
     CHR ''='' \<notin> set (cookie_name e) \<and> CHR ''='' \<notin> set (cookie_value e)"
proof -
  assume e: "e \<in> set (push_pair [] pair)"
  then obtain n v rest where
    sp: "n # v # rest = split (CHR ''='') (trim pair)" and ev: "e = mk_cookie n v"
    by (auto simp: push_pair_def split: list.splits if_splits)
  have "CHR ''='' \<notin> set n" "CHR ''='' \<notin> set v"
    using sp [symmetric] split_pieces [of _ "CHR ''=''" "trim pair"] by simp_all
  then show ?thesis
    using ev set_trim [of n] set_trim [of v] by (auto simp: mk_cookie_def)
qed

lemma parse_pairs_no_eq:
  "e \<in> set (parse_pairs [] pairs) \<Longrightarrow>
     CHR ''='' \<notin> set (cookie_name e) \<and> CHR ''='' \<notin> set (cookie_value e)"
proof (induction pairs)
  case Nil
  then show ?case by simp
next
  case (Cons pair pairs)
  have "parse_pairs [] (pair # pairs) = push_pair [] pair @ parse_pairs [] pairs"
    using parse_pairs_acc [of "push_pair [] pair" pairs] by simp
  with Cons.prems have "e \<in> set (push_pair [] pair) \<or> e \<in> set (parse_pairs [] pairs)"
    by simp
  then show ?case
    using push_pair_no_eq Cons.IH by blast
qed

lemma push_pair_fixed:
  "e \<in> set (push_pair [] pair) \<Longrightarrow>
     cookie_domain e = ''.facebook.com'' \<and> cookie_path e = ''/'' \<and>
     \<not> cookie_httpOnly e \<and> cookie_secure e"
  by (auto simp: push_pair_def mk_cookie_def split: list.splits if_splits)

lemma parse_pairs_fixed:
  "e \<in> set (parse_pairs [] pairs) \<Longrightarrow>
     cookie_domain e = ''.facebook.com'' \<and> cookie_path e = ''/'' \<and>
     \<not> cookie_httpOnly e \<and> cookie_secure e"
proof (induction pairs)
  case Nil
  then show ?case by simp
next
  case (Cons pair pairs)
  have "parse_pairs [] (pair # pairs) = push_pair [] pair @ parse_pairs [] pairs"
    using parse_pairs_acc [of "push_pair [] pair" pairs] by simp
  with Cons.prems have "e \<in> set (push_pair [] pair) \<or> e \<in> set (parse_pairs [] pairs)"
    by simp
  then show ?case
    using push_pair_fixed Cons.IH by blast
qed

lemma mk_cookie_dropWhile: "mk_cookie (dropWhile is_ws n) v = mk_cookie n v"
  by (simp add: mk_cookie_def trim_dropWhile)

lemma push_pair_truncates:
  assumes "CHR ''='' \<notin> set n" and "CHR ''='' \<notin> set v" and "trim n \<noteq> []" and "v \<noteq> []"
  shows "push_pair [] (n @ CHR ''='' # v @ CHR ''='' # rest) = [mk_cookie n v]"
proof -
  let ?n = "dropWhile is_ws n"
  let ?r = "rev (dropWhile is_ws (rev rest))"
  have t: "trim (n @ CHR ''='' # v @ CHR ''='' # rest) = ?n @ CHR ''='' # v @ CHR ''='' # ?r"
    using trim_pair [of n "v @ CHR ''='' # rest"] dropWhile_ws_eq [of "rev rest" "rev v"]
    by simp
  have "CHR ''='' \<notin> set ?n"
    using assms(1) set_dropWhileD [of _ is_ws n] by blast
  then have "split (CHR ''='') (?n @ CHR ''='' # v @ CHR ''='' # ?r) = ?n # v # split (CHR ''='') ?r"
    using assms(2) by (simp add: split_append)
  moreover have "?n \<noteq> []"
    using assms(3) by (simp add: trim_empty_iff)
  ultimately show ?thesis
    using assms(4) t by (simp add: push_pair_def mk_cookie_dropWhile)
qed

lemma push_pair_plain:
  assumes "CHR ''='' \<notin> set n" and "CHR ''='' \<notin> set v" and "trim n \<noteq> []" and "trim v \<noteq> []"
  shows "push_pair [] (n @ CHR ''='' # v) = [mk_cookie n v]"
proof -
  let ?n = "dropWhile is_ws n"
  let ?v = "rev (dropWhile is_ws (rev v))"
  have t: "trim (n @ CHR ''='' # v) = ?n @ CHR ''='' # ?v"
    by (rule trim_pair)
  have "CHR ''='' \<notin> set ?n"
    using assms(1) set_dropWhileD [of _ is_ws n] by blast
  moreover have "CHR ''='' \<notin> set ?v"
    using assms(2) set_dropWhileD [of _ is_ws "rev v"] by auto
  ultimately have sp: "split (CHR ''='') (?n @ CHR ''='' # ?v) = [?n, ?v]"
    by (simp add: split_append split_none)
  have "?n \<noteq> []"
    using assms(3) by (simp add: trim_empty_iff)
  moreover have "?v \<noteq> []"
  proof
    assume "?v = []"
    then have "\<forall>x \<in> set v. is_ws x" by simp
    with assms(4) show False by (simp add: trim_empty_all)
  qed
  moreover have "trim ?v = trim v"
    by (rule trim_rtrim)
  ultimately show ?thesis
    using t sp by (simp add: push_pair_def mk_cookie_def trim_dropWhile)
qed

lemma split_from_nonempty: "split_from c cur s \<noteq> []"
  by (induction s arbitrary: cur) simp_all

lemma split_nonempty: "split c s \<noteq> []"
  by (simp add: split_def split_from_nonempty)

lemma push_pair_no_eq_sign: "CHR ''='' \<notin> set f \<Longrightarrow> push_pair [] f = []"
proof -
  assume "CHR ''='' \<notin> set f"
  then have "CHR ''='' \<notin> set (trim f)"
    using set_trim [of f] by blast
  then show ?thesis
    by (simp add: push_pair_def split_none)
qed

lemma push_pair_empty_name:
  assumes "trim n = []"
  shows "push_pair [] (n @ CHR ''='' # t) = []"
proof -
  let ?t = "rev (dropWhile is_ws (rev t))"
  have "trim (n @ CHR ''='' # t) = [] @ CHR ''='' # ?t"
    using assms trim_pair [of n t] by (simp add: trim_empty_iff)
  then have "split (CHR ''='') (trim (n @ CHR ''='' # t)) = [] # split (CHR ''='') ?t"
    using split_append [of "CHR ''=''" "[]" ?t] by simp
  then show ?thesis
    using split_nonempty [of "CHR ''=''" ?t]
    by (cases "split (CHR ''='') ?t") (simp_all add: push_pair_def)
qed

lemma push_pair_empty_value:
  assumes "CHR ''='' \<notin> set n" and "trim w = []"
  shows "push_pair [] (n @ CHR ''='' # w) = []"
proof -
  let ?n = "dropWhile is_ws n"
  have "\<forall>x \<in> set (rev w). is_ws x"
    using assms(2) by (simp add: trim_empty_all)
  then have "dropWhile is_ws (rev w) = []" by simp
  then have t: "trim (n @ CHR ''='' # w) = ?n @ CHR ''='' # []"
    using trim_pair [of n w] by simp
  have "CHR ''='' \<notin> set ?n"
    using assms(1) set_dropWhileD [of _ is_ws n] by blast
  then have "split (CHR ''='') (?n @ CHR ''='' # []) = [?n, []]"
    by (simp add: split_append split_none)
  with t show ?thesis
    by (simp add: push_pair_def)
qed

lemma push_pair_double_eq:
  assumes "CHR ''='' \<notin> set n"
  shows "push_pair [] (n @ CHR ''='' # CHR ''='' # rest) = []"
proof -
  let ?n = "dropWhile is_ws n"
  let ?r = "rev (dropWhile is_ws (rev rest))"
  have t: "trim (n @ CHR ''='' # CHR ''='' # rest) = ?n @ CHR ''='' # [] @ CHR ''='' # ?r"
    using trim_pair [of n "CHR ''='' # rest"] dropWhile_ws_eq [of "rev rest" "[]"] by simp
  have "CHR ''='' \<notin> set ?n"
    using assms set_dropWhileD [of _ is_ws n] by blast
  then have "split (CHR ''='') (?n @ CHR ''='' # [] @ CHR ''='' # ?r) =
             ?n # [] # split (CHR ''='') ?r"
    using split_append [of "CHR ''=''" "[]" ?r] by (simp add: split_append)
  with t show ?thesis
    by (simp add: push_pair_def)
qed

lemma parseCookies_blank_value:
  "map (\<lambda>e. (cookie_name e, cookie_value e)) (parseCookies ''xs= =4'') = [(''xs'', [])]"
  by (simp add: trim_def is_ws_def parseCookies_def split_def push_pair_def mk_cookie_def)

text \<open>
  C10. parseCookies splits the credential string on \<open>;\<close> and each fragment on \<open>=\<close>:
  no entry of the result has \<open>=\<close> in its value (or its name), and every entry has the
  fixed domain, path and flags; the fragments are parsed one by one; a fragment
  \<open>n=v\<close> gives one entry, with name \<open>n\<close> and value \<open>v\<close>, both trimmed; a fragment
  \<open>n=v=rest\<close> gives the same entry, what follows the second \<open>=\<close> being dropped; a
  fragment without \<open>=\<close>, with an empty name, or with an empty value (nothing, or only
  blanks up to the end of the fragment, or a second \<open>=\<close> right after the first) gives
  no entry. A value of blanks that a second \<open>=\<close> follows is not empty when it is
  tested: it gives an entry, whose value is then trimmed to the empty string (lemma
  \<open>parseCookies_blank_value\<close>).
\<close>

theorem parseCookies_truncates_at_eq:
  "(\<forall>e \<in> set (parseCookies s).
      CHR ''='' \<notin> set (cookie_value e) \<and> CHR ''='' \<notin> set (cookie_name e) \<and>
      cookie_domain e = ''.facebook.com'' \<and> cookie_path e = ''/'' \<and>
      \<not> cookie_httpOnly e \<and> cookie_secure e) \<and>
   (CHR '';'' \<notin> set a \<longrightarrow> parseCookies (a @ CHR '';'' # b) = parseCookies a @ parseCookies b) \<and>
   (CHR '';'' \<notin> set (n0 @ v0) \<and> CHR ''='' \<notin> set (n0 @ v0) \<and> trim n0 \<noteq> [] \<and> trim v0 \<noteq> [] \<longrightarrow>
      parseCookies (n0 @ CHR ''='' # v0) =
        [\<lparr>cookie_name = trim n0, cookie_value = trim v0, cookie_domain = ''.facebook.com'',
          cookie_path = ''/'', cookie_httpOnly = False, cookie_secure = True\<rparr>]) \<and>
   (CHR '';'' \<notin> set (n1 @ v1 @ r1) \<and> CHR ''='' \<notin> set (n1 @ v1) \<and> trim n1 \<noteq> [] \<and> v1 \<noteq> [] \<longrightarrow>
      parseCookies (n1 @ CHR ''='' # v1 @ CHR ''='' # r1) =
        [\<lparr>cookie_name = trim n1, cookie_value = trim v1, cookie_domain = ''.facebook.com'',
          cookie_path = ''/'', cookie_httpOnly = False, cookie_secure = True\<rparr>]) \<and>
   (CHR '';'' \<notin> set f2 \<and> CHR ''='' \<notin> set f2 \<longrightarrow> parseCookies f2 = []) \<and>
   (CHR '';'' \<notin> set t3 \<and> trim n3 = [] \<longrightarrow> parseCookies (n3 @ CHR ''='' # t3) = []) \<and>
   (CHR '';'' \<notin> set n4 \<and> CHR ''='' \<notin> set n4 \<and> trim w4 = [] \<longrightarrow>
      parseCookies (n4 @ CHR ''='' # w4) = []) \<and>
   (CHR '';'' \<notin> set (n5 @ r5) \<and> CHR ''='' \<notin> set n5 \<longrightarrow>
      parseCookies (n5 @ CHR ''='' # CHR ''='' # r5) = [])"
proof -
  have ws: "\<not> is_ws (CHR '';'')"
    by (simp add: is_ws_def)
  have semi: "CHR '';'' \<notin> set x" if "trim x = []" for x
    using that ws by (auto simp: trim_empty_all)
  have c1: "\<forall>e \<in> set (parseCookies s).
      CHR ''='' \<notin> set (cookie_value e) \<and> CHR ''='' \<notin> set (cookie_name e) \<and>
      cookie_domain e = ''.facebook.com'' \<and> cookie_path e = ''/'' \<and>
      \<not> cookie_httpOnly e \<and> cookie_secure e"
    using parse_pairs_no_eq [of _ "split (CHR '';'') s"] parse_pairs_fixed [of _ "split (CHR '';'') s"]
    by (auto simp: parseCookies_def)
  have c2: "CHR '';'' \<notin> set a \<longrightarrow> parseCookies (a @ CHR '';'' # b) = parseCookies a @ parseCookies b"
    by (simp add: parseCookies_append)
  have c0: "CHR '';'' \<notin> set (n0 @ v0) \<and> CHR ''='' \<notin> set (n0 @ v0) \<and> trim n0 \<noteq> [] \<and> trim v0 \<noteq> [] \<longrightarrow>
      parseCookies (n0 @ CHR ''='' # v0) =
        [\<lparr>cookie_name = trim n0, cookie_value = trim v0, cookie_domain = ''.facebook.com'',
          cookie_path = ''/'', cookie_httpOnly = False, cookie_secure = True\<rparr>]"
    using push_pair_plain [of n0 v0] parseCookies_fragment [of "n0 @ CHR ''='' # v0"]
    by (simp add: mk_cookie_def)
  have c3: "CHR '';'' \<notin> set (n1 @ v1 @ r1) \<and> CHR ''='' \<notin> set (n1 @ v1) \<and> trim n1 \<noteq> [] \<and> v1 \<noteq> [] \<longrightarrow>
      parseCookies (n1 @ CHR ''='' # v1 @ CHR ''='' # r1) =
        [\<lparr>cookie_name = trim n1, cookie_value = trim v1, cookie_domain = ''.facebook.com'',
          cookie_path = ''/'', cookie_httpOnly = False, cookie_secure = True\<rparr>]"
    using push_pair_truncates [of n1 v1 r1]
      parseCookies_fragment [of "n1 @ CHR ''='' # v1 @ CHR ''='' # r1"]
    by (simp add: mk_cookie_def)
  have c4: "CHR '';'' \<notin> set f2 \<and> CHR ''='' \<notin> set f2 \<longrightarrow> parseCookies f2 = []"
    by (simp add: parseCookies_fragment push_pair_no_eq_sign)
  have c5: "CHR '';'' \<notin> set t3 \<and> trim n3 = [] \<longrightarrow> parseCookies (n3 @ CHR ''='' # t3) = []"
    using semi [of n3] push_pair_empty_name [of n3 t3]
      parseCookies_fragment [of "n3 @ CHR ''='' # t3"] by simp
  have c6: "CHR '';'' \<notin> set n4 \<and> CHR ''='' \<notin> set n4 \<and> trim w4 = [] \<longrightarrow>
      parseCookies (n4 @ CHR ''='' # w4) = []"
    using semi [of w4] push_pair_empty_value [of n4 w4]
      parseCookies_fragment [of "n4 @ CHR ''='' # w4"] by simp
  have c7: "CHR '';'' \<notin> set (n5 @ r5) \<and> CHR ''='' \<notin> set n5 \<longrightarrow>
      parseCookies (n5 @ CHR ''='' # CHR ''='' # r5) = []"
    using push_pair_double_eq [of n5 r5]
      parseCookies_fragment [of "n5 @ CHR ''='' # CHR ''='' # r5"] by simp
  from c1 c2 c0 c3 c4 c5 c6 c7 show ?thesis by blast
qed

lemma parseCookies_examples:
  "map (\<lambda>e. (cookie_name e, cookie_value e)) (parseCookies ''c_user=100; sb=Q1=Z'') =
     [(''c_user'', ''100''), (''sb'', ''Q1'')] \<and>
   trim ''c_user'' = ''c_user'' \<and> trim ''100'' = ''100'' \<and> trim '' xs '' = ''xs'' \<and>
   trim '' 4 '' = ''4'' \<and> trim ''sb'' = ''sb'' \<and> trim ''Q1'' = ''Q1'' \<and> trim '' '' = []"
  by (simp add: trim_def is_ws_def parseCookies_def split_def push_pair_def mk_cookie_def)

theorem parseCookies_truncates_at_eq_witness:
  "map (\<lambda>e. (cookie_name e, cookie_value e)) (parseCookies ''c_user=100; sb=Q1=Z'') =
     [(''c_user'', ''100''), (''sb'', ''Q1'')] \<and>
   parseCookies ''c_user=100; xs=4'' = parseCookies ''c_user=100'' @ parseCookies '' xs=4'' \<and>
   parseCookies '' xs = 4 '' =
     [\<lparr>cookie_name = ''xs'', cookie_value = ''4'', cookie_domain = ''.facebook.com'',
       cookie_path = ''/'', cookie_httpOnly = False, cookie_secure = True\<rparr>] \<and>
   parseCookies ''sb=Q1=Z'' =
     [\<lparr>cookie_name = ''sb'', cookie_value = ''Q1'', cookie_domain = ''.facebook.com'',
       cookie_path = ''/'', cookie_httpOnly = False, cookie_secure = True\<rparr>] \<and>
   parseCookies ''datr'' = [] \<and>
   parseCookies '' =abc'' = [] \<and>
   parseCookies ''xs= '' = [] \<and>
   parseCookies ''xs==4'' = []"
proof -
  note th = parseCookies_truncates_at_eq [of "''c_user=100; sb=Q1=Z''" "''c_user=100''" "'' xs=4''"
      "'' xs ''" "'' 4 ''" "''sb''" "''Q1''" "''Z''" "''datr''" "''abc''" "'' ''" "''xs''" "'' ''"
      "''xs''" "''4''"]
  have "parseCookies ''c_user=100; xs=4'' = parseCookies ''c_user=100'' @ parseCookies '' xs=4''"
    using th by simp
  moreover have "parseCookies '' xs = 4 '' =
     [\<lparr>cookie_name = ''xs'', cookie_value = ''4'', cookie_domain = ''.facebook.com'',
       cookie_path = ''/'', cookie_httpOnly = False, cookie_secure = True\<rparr>]"
    using th parseCookies_examples by simp
  moreover have "parseCookies ''sb=Q1=Z'' =
     [\<lparr>cookie_name = ''sb'', cookie_value = ''Q1'', cookie_domain = ''.facebook.com'',
       cookie_path = ''/'', cookie_httpOnly = False, cookie_secure = True\<rparr>]"
    using th parseCookies_examples by simp
  moreover have "parseCookies ''datr'' = []" using th by simp
  moreover have "parseCookies '' =abc'' = []" using th parseCookies_examples by simp
  moreover have "parseCookies ''xs= '' = []" using th parseCookies_examples by simp
  moreover have "parseCookies ''xs==4'' = []" using th by simp
  ultimately show ?thesis
    using parseCookies_examples by blast
qed

section \<open>Facts about the send loop\<close>

lemma starts_with_iff: "starts_with s sub \<longleftrightarrow> (\<exists>b. s = sub @ b)"
  by (induction s sub rule: starts_with.induct) auto

lemma js_includes_iff: "js_includes s sub \<longleftrightarrow> (\<exists>a b. s = a @ sub @ b)"
proof (induction s)
  case Nil
  then show ?case by auto
next
  case (Cons x xs)
  show ?case
  proof
    assume "js_includes (x # xs) sub"
    then consider "starts_with (x # xs) sub" | "js_includes xs sub" by auto
    then show "\<exists>a b. x # xs = a @ sub @ b"
    proof cases
      case 1
      then obtain b where "x # xs = [] @ sub @ b"
        by (auto simp: starts_with_iff)
      then show ?thesis by blast
    next
      case 2
      then obtain a b where "xs = a @ sub @ b"
        using Cons.IH by blast
      then have "x # xs = (x # a) @ sub @ b" by simp
      then show ?thesis by blast
    qed
  next
    assume "\<exists>a b. x # xs = a @ sub @ b"
    then obtain a b where ab: "x # xs = a @ sub @ b" by blast
    show "js_includes (x # xs) sub"
    proof (cases a)
      case Nil
      with ab have "starts_with (x # xs) sub"
        by (auto simp: starts_with_iff)
      then show ?thesis by simp
    next
      case (Cons y ys)
      with ab have "xs = ys @ sub @ b" by simp
      then have "js_includes xs sub"
        using Cons.IH by blast
      then show ?thesis by simp
    qed
  qed
qed


lemma send_pass_failed:
  "send_pass (Failed m) s =
     (if js_includes m ''textbox not found''
      then (s, [emitStatus s St_error (''Error sending message: '' @ m), Delay (Some backoff_ms),
                emitStatus s St_error ''Cannot find message input. Stopping task.''], True)
      else (s, [emitStatus s St_error (''Error sending message: '' @ m), Delay (Some backoff_ms)],
            False))"
  by (simp add: send_pass_def)

lemma send_pass_sent:
  "send_pass Sent s =
     (s\<lparr>totalSent := js_inc (totalSent s),
        currentIndex := (currentIndex s + 1) mod length (messages s)\<rparr>,
      [emitStatus
         (s\<lparr>totalSent := js_inc (totalSent s),
            currentIndex := (currentIndex s + 1) mod length (messages s)\<rparr>)
         St_active (sent_message (js_inc (totalSent s)) (messages s ! currentIndex s)),
       Delay (delay_ms s)], False)"
  by (simp add: send_pass_def delay_ms_def Let_def)

lemma js_inc_le: "t \<le> exact_limit \<Longrightarrow> js_inc t \<le> exact_limit"
  by (simp add: js_inc_def)

lemma js_inc_min:
  "t \<le> exact_limit \<Longrightarrow> min exact_limit (js_inc t + j) = min exact_limit (t + j + 1)"
  by (simp add: js_inc_def min_def)

lemma sendMessages_replay:
  assumes "isRunning s" and "currentIndex s < length (messages s)" and "totalSent s \<le> exact_limit"
    and "\<forall>m. Failed m \<in> set outs \<longrightarrow> \<not> js_includes m ''textbox not found''"
  shows "\<exists>s' acts. sendMessages outs s = (s', acts, False) \<and> isRunning s' \<and>
      messages s' = messages s \<and> config s' = config s \<and>
      currentIndex s' = (currentIndex s + count_list outs Sent) mod length (messages s) \<and>
      totalSent s' = min exact_limit (totalSent s + count_list outs Sent) \<and>
      map ev_message (active_events acts) =
        map (\<lambda>j. sent_message (min exact_limit (totalSent s + j + 1))
                   (messages s ! ((currentIndex s + j) mod length (messages s))))
          [0..<count_list outs Sent]"
  using assms
proof (induction outs arbitrary: s)
  case Nil
  then show ?case by simp
next
  case (Cons out outs)
  let ?N = "length (messages s)"
  show ?case
  proof (cases out)
    case Sent
    let ?s1 = "s\<lparr>totalSent := js_inc (totalSent s),
        currentIndex := (currentIndex s + 1) mod length (messages s)\<rparr>"
    have pre: "isRunning ?s1" "currentIndex ?s1 < length (messages ?s1)" "totalSent ?s1 \<le> exact_limit"
      "\<forall>m. Failed m \<in> set outs \<longrightarrow> \<not> js_includes m ''textbox not found''"
    proof -
      have "0 < length (messages s)" using Cons.prems(2) by (cases "messages s") simp_all
      then show "currentIndex ?s1 < length (messages ?s1)" by simp
    qed (use Cons.prems in \<open>simp_all add: js_inc_le\<close>)
    from Cons.IH [OF pre] obtain s' acts where
      r: "sendMessages outs ?s1 = (s', acts, False)" and
      p: "isRunning s'" "messages s' = messages s" "config s' = config s"
         "currentIndex s' = ((currentIndex s + 1) mod ?N + count_list outs Sent) mod ?N"
         "totalSent s' = min exact_limit (js_inc (totalSent s) + count_list outs Sent)" and
      e: "map ev_message (active_events acts) =
        map (\<lambda>j. sent_message (min exact_limit (js_inc (totalSent s) + j + 1))
                   (messages s ! (((currentIndex s + 1) mod ?N + j) mod ?N)))
          [0..<count_list outs Sent]"
      by auto
    let ?ev = "emitStatus ?s1 St_active (sent_message (js_inc (totalSent s)) (messages s ! currentIndex s))"
    have run: "sendMessages (out # outs) s = (s', [?ev, Delay (delay_ms s)] @ acts, False)"
      using Sent Cons.prems(1) r by (simp add: send_pass_sent)
    have idx: "((currentIndex s + 1) mod ?N + j) mod ?N = (currentIndex s + Suc j) mod ?N" for j
      by (simp add: mod_add_left_eq)
    have cnt: "min exact_limit (js_inc (totalSent s) + j + 1) = min exact_limit (totalSent s + Suc j + 1)" for j
      using js_inc_min [OF Cons.prems(3), of "j + 1"] by (simp add: add.assoc)
    have first: "js_inc (totalSent s) = min exact_limit (totalSent s + 0 + 1)"
      using Cons.prems(3) by (simp add: js_inc_def min_def)
    have c0: "currentIndex s = (currentIndex s + 0) mod ?N"
      using Cons.prems(2) by simp
    have "map ev_message (active_events ([?ev, Delay (delay_ms s)] @ acts)) =
        sent_message (js_inc (totalSent s)) (messages s ! currentIndex s) #
        map ev_message (active_events acts)"
      by (simp add: emitStatus_def status_data_def)
    also have "\<dots> =
        map (\<lambda>j. sent_message (min exact_limit (totalSent s + j + 1))
                   (messages s ! ((currentIndex s + j) mod ?N)))
          [0..<Suc (count_list outs Sent)]"
      unfolding e map_upt_Suc idx cnt using first c0 by simp
    finally have ev: "map ev_message (active_events ([?ev, Delay (delay_ms s)] @ acts)) =
        map (\<lambda>j. sent_message (min exact_limit (totalSent s + j + 1))
                   (messages s ! ((currentIndex s + j) mod ?N)))
          [0..<count_list (out # outs) Sent]"
      using Sent by simp
    have "currentIndex s' = (currentIndex s + count_list (out # outs) Sent) mod ?N"
      using p(4) Sent by (simp add: mod_add_left_eq)
    moreover have "totalSent s' = min exact_limit (totalSent s + count_list (out # outs) Sent)"
      using p(5) Sent js_inc_min [OF Cons.prems(3), of "count_list outs Sent"] by simp
    ultimately show ?thesis
      using run p(1,2,3) ev by blast
  next
    case (Failed m)
    have nf: "\<not> js_includes m ''textbox not found''"
      using Cons.prems(4) Failed by simp
    have pre: "\<forall>m. Failed m \<in> set outs \<longrightarrow> \<not> js_includes m ''textbox not found''"
      using Cons.prems(4) by simp
    from Cons.IH [OF Cons.prems(1,2,3) pre] obtain s' acts where
      r: "sendMessages outs s = (s', acts, False)" and
      p: "isRunning s'" "messages s' = messages s" "config s' = config s"
         "currentIndex s' = (currentIndex s + count_list outs Sent) mod ?N"
         "totalSent s' = min exact_limit (totalSent s + count_list outs Sent)"
         "map ev_message (active_events acts) =
        map (\<lambda>j. sent_message (min exact_limit (totalSent s + j + 1))
                   (messages s ! ((currentIndex s + j) mod ?N)))
          [0..<count_list outs Sent]"
      by auto
    have "sendMessages (out # outs) s =
        (s', [emitStatus s St_error (''Error sending message: '' @ m), Delay (Some backoff_ms)] @ acts, False)"
      using Failed nf Cons.prems(1) r by (simp add: send_pass_failed)
    moreover have "active_events ([emitStatus s St_error (''Error sending message: '' @ m), Delay (Some backoff_ms)] @ acts)
        = active_events acts"
      by (simp add: emitStatus_def status_data_def)
    ultimately show ?thesis
      using p Failed by simp
  qed
qed

lemma count_replicate_Sent: "count_list (replicate n Sent) Sent = n"
  by (induction n) simp_all

lemma example_task_ready:
  "isRunning (example_task secs) \<and> messages (example_task secs) = [''hi'', ''there''] \<and>
   currentIndex (example_task secs) = 0 \<and> totalSent (example_task secs) = 0"
  by (simp add: example_task_def new_sender_def)

text \<open>
  C4, as amended. For a task in its loop with a list of \<open>N \<ge> 1\<close> messages, cursor and
  sent count 0, and passes of which \<open>M\<close> send a message and none fails fatally: the loop
  goes on, the cursor is \<open>M mod N\<close> for every \<open>M\<close>, and the sent count is \<open>M\<close> as long as
  \<open>M \<le> 2 ^ 53\<close> (it is the smaller of \<open>M\<close> and \<open>2 ^ 53\<close>); up to there the event of the
  \<open>(j+1)\<close>-th send reports the message at index \<open>j mod N\<close>.
\<close>

theorem circular_replay:
  assumes "isRunning s" and "messages s \<noteq> []" and "currentIndex s = 0" and "totalSent s = 0"
    and "\<forall>m. Failed m \<in> set outs \<longrightarrow> \<not> js_includes m ''textbox not found''"
  shows "\<exists>s' acts. sendMessages outs s = (s', acts, False) \<and>
      currentIndex s' = count_list outs Sent mod length (messages s) \<and>
      totalSent s' = min exact_limit (count_list outs Sent) \<and>
      (count_list outs Sent \<le> exact_limit \<longrightarrow>
         totalSent s' = count_list outs Sent \<and>
         map ev_message (active_events acts) =
           map (\<lambda>j. sent_message (j + 1) (messages s ! (j mod length (messages s))))
             [0..<count_list outs Sent])"
proof -
  have "currentIndex s < length (messages s)" and "totalSent s \<le> exact_limit"
    using assms(2,3,4) by simp_all
  from sendMessages_replay [OF assms(1) this assms(5)] obtain s' acts where
    r: "sendMessages outs s = (s', acts, False)" and
    c: "currentIndex s' = count_list outs Sent mod length (messages s)" and
    t: "totalSent s' = min exact_limit (count_list outs Sent)" and
    e: "map ev_message (active_events acts) =
        map (\<lambda>j. sent_message (min exact_limit (j + 1)) (messages s ! (j mod length (messages s))))
          [0..<count_list outs Sent]"
    using assms(3,4) by auto
  have "map (\<lambda>j. sent_message (min exact_limit (j + 1)) (messages s ! (j mod length (messages s))))
          [0..<count_list outs Sent] =
        map (\<lambda>j. sent_message (j + 1) (messages s ! (j mod length (messages s))))
          [0..<count_list outs Sent]"
    if le: "count_list outs Sent \<le> exact_limit"
  proof (intro map_cong refl)
    fix j
    assume "j \<in> set [0..<count_list outs Sent]"
    then have "j + 1 \<le> exact_limit" using le by simp
    then have "min exact_limit (j + 1) = j + 1" by simp
    then show "sent_message (min exact_limit (j + 1)) (messages s ! (j mod length (messages s))) =
        sent_message (j + 1) (messages s ! (j mod length (messages s)))"
      by simp
  qed
  with r c t e show ?thesis
    by (auto simp: min_def)
qed

theorem circular_replay_witness:
  "isRunning (example_task ''1'') \<and> messages (example_task ''1'') = [''hi'', ''there''] \<and>
   (\<exists>s' acts. sendMessages [Sent, Sent, Sent] (example_task ''1'') = (s', acts, False) \<and>
      currentIndex s' = 1 \<and> totalSent s' = 3 \<and>
      map ev_message (active_events acts) =
        [sent_message 1 ''hi'', sent_message 2 ''there'', sent_message 3 ''hi''])"
proof -
  have cnt: "count_list [Sent, Sent, Sent] Sent = 3"
    by simp
  have three: "[0..<3] = [0, 1, 2::nat]"
    by (simp add: numeral_3_eq_3)
  have le: "(3::nat) \<le> exact_limit"
    by (simp add: exact_limit_def)
  have no_fail: "\<forall>m. Failed m \<in> set [Sent, Sent, Sent] \<longrightarrow> \<not> js_includes m ''textbox not found''"
    by simp
  note rdy = example_task_ready [of "''1''"]
  have "\<exists>s' acts. sendMessages [Sent, Sent, Sent] (example_task ''1'') = (s', acts, False) \<and>
      currentIndex s' = 3 mod length (messages (example_task ''1'')) \<and>
      totalSent s' = min exact_limit 3 \<and>
      (3 \<le> exact_limit \<longrightarrow>
         totalSent s' = 3 \<and>
         map ev_message (active_events acts) =
           map (\<lambda>j. sent_message (j + 1)
                  (messages (example_task ''1'') ! (j mod length (messages (example_task ''1'')))))
             [0..<3])"
    using circular_replay [of "example_task ''1''" "[Sent, Sent, Sent]", unfolded cnt] rdy no_fail
    by simp
  then show ?thesis
    using rdy le three by (simp del: sendMessages.simps add: numeral_2_eq_2 [symmetric])
qed

text \<open>
  The claim as stated is false at \<open>M = 2 ^ 53 + 1\<close>: after that many sends the sent count
  is \<open>2 ^ 53\<close>.
\<close>

theorem circular_replay_counterexample:
  "totalSent (fst (sendMessages (replicate (exact_limit + 1) Sent) (example_task ''1''))) = exact_limit \<and>
   exact_limit \<noteq> exact_limit + 1"
proof -
  have "\<forall>m. Failed m \<in> set (replicate (exact_limit + 1) Sent) \<longrightarrow>
      \<not> js_includes m ''textbox not found''"
    by (simp only: set_replicate_conv_if) simp
  from sendMessages_replay [OF _ _ _ this, of "example_task ''1''"] obtain s' acts where
    "sendMessages (replicate (exact_limit + 1) Sent) (example_task ''1'') = (s', acts, False)" and
    "totalSent s' = min exact_limit (0 + count_list (replicate (exact_limit + 1) Sent) Sent)"
    using example_task_ready [of "''1''"] by auto
  then show ?thesis
    by (simp only: count_replicate_Sent fst_conv) simp
qed







lemma start_empty_list:
  assumes "io_readFile ini = Returns content" and "read_messages content = []"
  shows "start ini con outs s =
     (s\<lparr>messages := []\<rparr>,
      [emitStatus (s\<lparr>messages := []\<rparr>) St_error
         ''Initialization failed: No valid messages found in file''],
      Returned_false)"
  using assms by (simp add: start_def init_def init_failed_def Let_def)



section \<open>Facts about objects and the primitives of the server\<close>

lemma set_obj_set: "set (obj_set k v m) \<subseteq> insert (k, v) (set m)"
  by (induction m) auto

lemma map_of_obj_set: "map_of (obj_set k v m) = (map_of m)(k \<mapsto> v)"
  by (induction m) (auto simp: fun_eq_iff)

lemma map_of_obj_delete: "map_of (obj_delete k m) = (map_of m)(k := None)"
  by (induction m) (auto simp: obj_delete_def fun_eq_iff)

lemma set_obj_delete: "set (obj_delete k m) \<subseteq> set m"
  by (auto simp: obj_delete_def)

lemma initSessionTasks_fields [simp]:
  "heap (initSessionTasks sid st) = heap st"
  "timers (initSessionTasks sid st) = timers st"
  "pending (initSessionTasks sid st) = pending st"
  "rooms (initSessionTasks sid st) = rooms st"
  "emitted (initSessionTasks sid st) = emitted st"
  "received (initSessionTasks sid st) = received st"
  by (simp_all add: initSessionTasks_def Let_def)

lemma publish_fields [simp]:
  "heap (publish a room d st) = heap st"
  "sessionTasks (publish a room d st) = sessionTasks st"
  "sessionBrowsers (publish a room d st) = sessionBrowsers st"
  "timers (publish a room d st) = timers st"
  "pending (publish a room d st) = pending st"
  "rooms (publish a room d st) = rooms st"
  by (simp_all add: publish_def)

lemma remove_task_fields [simp]:
  "heap (remove_task a st) = heap st"
  "timers (remove_task a st) = timers st"
  "pending (remove_task a st) = pending st"
  "rooms (remove_task a st) = rooms st"
  "emitted (remove_task a st) = emitted st"
  "received (remove_task a st) = received st"
  by (simp_all add: remove_task_def Let_def split: option.splits)

lemma cleanup_fields [simp]:
  "heap (cleanup a b st) = heap st"
  "timers (cleanup a b st) = timers st"
  "rooms (cleanup a b st) = rooms st"
  "emitted (cleanup a b st) = emitted st"
  "received (cleanup a b st) = received st"
  by (simp_all add: cleanup_def Let_def)

lemma write_task_fields [simp]:
  "sessionTasks (write_task a s p st) = sessionTasks st"
  "sessionBrowsers (write_task a s p st) = sessionBrowsers st"
  "timers (write_task a s p st) = timers st"
  "pending (write_task a s p st) = pending st"
  "rooms (write_task a s p st) = rooms st"
  "emitted (write_task a s p st) = emitted st"
  "received (write_task a s p st) = received st"
  "length (heap (write_task a s p st)) = length (heap st)"
  by (simp_all add: write_task_def)

lemma perform_fields [simp]:
  "heap (perform a act st) = heap st"
  "timers (perform a act st) = timers st"
  "rooms (perform a act st) = rooms st"
  by (simp_all add: perform_def split: action.splits)

lemma perform_all_fields [simp]:
  "heap (perform_all a acts st) = heap st"
  "timers (perform_all a acts st) = timers st"
  "rooms (perform_all a acts st) = rooms st"
  by (induction acts arbitrary: st) simp_all

lemma task_at_heap: "heap st' = heap st \<Longrightarrow> task_at st' b = task_at st b"
  by (simp add: task_at_def)

lemma pc_at_heap: "heap st' = heap st \<Longrightarrow> pc_at st' b = pc_at st b"
  by (simp add: pc_at_def)

lemma task_at_write:
  "a < length (heap st) \<Longrightarrow> task_at (write_task a s p st) b = (if b = a then s else task_at st b)"
  by (simp add: task_at_def write_task_def)

lemma pc_at_write:
  "a < length (heap st) \<Longrightarrow> pc_at (write_task a s p st) b = (if b = a then p else pc_at st b)"
  by (simp add: pc_at_def write_task_def)


lemma registry_ok_step:
  assumes "registry_ok st" and "length (heap st) \<le> length (heap st')"
    and "\<And>b. b < length (heap st) \<Longrightarrow> same_ident (task_at st b) (task_at st' b)"
    and "\<And>e p. e \<in> set (sessionTasks st') \<Longrightarrow> p \<in> set (snd e) \<Longrightarrow>
           (\<exists>e' \<in> set (sessionTasks st). fst e' = fst e \<and> p \<in> set (snd e')) \<or>
           (snd p < length (heap st') \<and> sessionId (task_at st' (snd p)) = fst e \<and>
            taskId (task_at st' (snd p)) = fst p \<and>
            threadId (config (task_at st' (snd p))) = fst p \<and> \<not> inherited (fst p))"
  shows "registry_ok st'"
  unfolding registry_ok_def
proof (intro ballI)
  fix e p
  assume e: "e \<in> set (sessionTasks st')" and p: "p \<in> set (snd e)"
  let ?goal = "snd p < length (heap st') \<and> sessionId (task_at st' (snd p)) = fst e \<and>
      taskId (task_at st' (snd p)) = fst p \<and> threadId (config (task_at st' (snd p))) = fst p \<and>
      \<not> inherited (fst p)"
  from assms(4) [OF e p] show ?goal
  proof
    assume "\<exists>e' \<in> set (sessionTasks st). fst e' = fst e \<and> p \<in> set (snd e')"
    then obtain e' where e': "e' \<in> set (sessionTasks st)" "fst e' = fst e" "p \<in> set (snd e')"
      by blast
    from assms(1) e'(1,3) have ok: "snd p < length (heap st)"
      "sessionId (task_at st (snd p)) = fst e'" "taskId (task_at st (snd p)) = fst p"
      "threadId (config (task_at st (snd p))) = fst p" "\<not> inherited (fst p)"
      by (auto simp: registry_ok_def)
    from assms(3) [OF ok(1)] have "same_ident (task_at st (snd p)) (task_at st' (snd p))" .
    with ok e'(2) assms(2) show ?goal
      by (auto simp: same_ident_def)
  next
    assume ?goal
    then show ?goal .
  qed
qed

lemma delivery_ok_step:
  assumes "delivery_ok st" and "length (heap st) \<le> length (heap st')"
    and "\<And>b. b < length (heap st) \<Longrightarrow> same_ident (task_at st b) (task_at st' b)"
    and "\<And>m. m \<in> set (rooms st') \<Longrightarrow> m \<in> set (rooms st) \<or> snd m = snd (fst m)"
    and "\<And>e. e \<in> set (emitted st') \<Longrightarrow> e \<in> set (emitted st) \<or>
           (fst e < length (heap st') \<and> fst (snd e) = sessionId (task_at st' (fst e)) \<and>
            ev_sessionId (snd (snd e)) = sessionId (task_at st' (fst e)))"
    and "\<And>r. r \<in> set (received st') \<Longrightarrow> r \<in> set (received st) \<or>
           (fst (snd r) < length (heap st') \<and> sessionId (task_at st' (fst (snd r))) = snd (fst r) \<and>
            ev_sessionId (snd (snd r)) = snd (fst r))"
    and "\<And>c. c \<in> set (pending st') \<Longrightarrow> c \<in> set (pending st) \<or> fst c < length (heap st')"
  shows "delivery_ok st'"
proof -
  have id: "sessionId (task_at st' b) = sessionId (task_at st b)" if "b < length (heap st)" for b
    using assms(3) [OF that] by (simp add: same_ident_def)
  have r: "\<forall>m \<in> set (rooms st'). snd m = snd (fst m)"
  proof
    fix m
    assume "m \<in> set (rooms st')"
    from assms(4) [OF this] show "snd m = snd (fst m)"
      using assms(1) by (auto simp: delivery_ok_def)
  qed
  have e: "\<forall>e \<in> set (emitted st').
        fst e < length (heap st') \<and>
        fst (snd e) = sessionId (task_at st' (fst e)) \<and>
        ev_sessionId (snd (snd e)) = sessionId (task_at st' (fst e))"
  proof
    fix e
    assume "e \<in> set (emitted st')"
    from assms(5) [OF this]
    show "fst e < length (heap st') \<and>
        fst (snd e) = sessionId (task_at st' (fst e)) \<and>
        ev_sessionId (snd (snd e)) = sessionId (task_at st' (fst e))"
    proof
      assume "e \<in> set (emitted st)"
      with assms(1) have "fst e < length (heap st)"
        "fst (snd e) = sessionId (task_at st (fst e))"
        "ev_sessionId (snd (snd e)) = sessionId (task_at st (fst e))"
        by (simp_all add: delivery_ok_def)
      then show ?thesis
        using assms(2) id by simp
    qed
  qed
  have v: "\<forall>r \<in> set (received st').
        fst (snd r) < length (heap st') \<and>
        sessionId (task_at st' (fst (snd r))) = snd (fst r) \<and>
        ev_sessionId (snd (snd r)) = snd (fst r)"
  proof
    fix r
    assume "r \<in> set (received st')"
    from assms(6) [OF this]
    show "fst (snd r) < length (heap st') \<and>
        sessionId (task_at st' (fst (snd r))) = snd (fst r) \<and>
        ev_sessionId (snd (snd r)) = snd (fst r)"
    proof
      assume "r \<in> set (received st)"
      with assms(1) have "fst (snd r) < length (heap st)"
        "sessionId (task_at st (fst (snd r))) = snd (fst r)"
        "ev_sessionId (snd (snd r)) = snd (fst r)"
        by (simp_all add: delivery_ok_def)
      then show ?thesis
        using assms(2) id by simp
    qed
  qed
  have p: "\<forall>c \<in> set (pending st'). fst c < length (heap st')"
  proof
    fix c
    assume "c \<in> set (pending st')"
    from assms(7) [OF this] show "fst c < length (heap st')"
    proof
      assume "c \<in> set (pending st)"
      with assms(1) have "fst c < length (heap st)"
        by (simp add: delivery_ok_def)
      then show ?thesis using assms(2) by simp
    qed
  qed
  from r e v p show ?thesis
    unfolding delivery_ok_def by blast
qed

lemma same_ident_refl [simp]: "same_ident s s"
  by (simp add: same_ident_def)

lemma same_heap_ident: "heap st' = heap st \<Longrightarrow> same_ident (task_at st b) (task_at st' b)"
  by (simp add: task_at_def)

lemma sessionTasks_initSessionTasks:
  "sessionTasks (initSessionTasks sid st) =
     (if map_of (sessionTasks st) sid = None then obj_set sid [] (sessionTasks st)
      else sessionTasks st)"
  by (cases "map_of (sessionTasks st) sid"; cases "map_of (sessionBrowsers st) sid")
    (simp_all add: initSessionTasks_def Let_def)

lemma inv_initSessionTasks:
  assumes "inv st"
  shows "inv (initSessionTasks sid st)"
proof -
  let ?st = "initSessionTasks sid st"
  have "registry_ok ?st"
  proof (rule registry_ok_step [of st])
    show "registry_ok st" using assms by (simp add: inv_def)
    show "length (heap st) \<le> length (heap ?st)" by simp
    show "same_ident (task_at st b) (task_at ?st b)" for b
      by (simp add: same_heap_ident)
  next
    fix e p
    assume e: "e \<in> set (sessionTasks ?st)" and p: "p \<in> set (snd e)"
    have "e \<in> set (sessionTasks st) \<or> e = (sid, [])"
      using e set_obj_set [of sid "[]" "sessionTasks st"]
      by (auto simp: sessionTasks_initSessionTasks split: if_splits)
    with p have "e \<in> set (sessionTasks st)" by auto
    with p show "(\<exists>e' \<in> set (sessionTasks st). fst e' = fst e \<and> p \<in> set (snd e')) \<or>
           (snd p < length (heap ?st) \<and> sessionId (task_at ?st (snd p)) = fst e \<and>
            taskId (task_at ?st (snd p)) = fst p \<and>
            threadId (config (task_at ?st (snd p))) = fst p \<and> \<not> inherited (fst p))"
      by blast
  qed
  moreover have "delivery_ok ?st"
    by (rule delivery_ok_step [of st]) (use assms in \<open>simp_all add: inv_def same_heap_ident\<close>)
  ultimately show ?thesis by (simp add: inv_def)
qed

lemma inv_same_registry:
  assumes "inv st" and "heap st' = heap st" and "sessionTasks st' = sessionTasks st"
    and "rooms st' = rooms st" and "emitted st' = emitted st" and "received st' = received st"
    and "\<And>c. c \<in> set (pending st') \<Longrightarrow> c \<in> set (pending st) \<or> fst c < length (heap st)"
  shows "inv st'"
proof -
  have "registry_ok st'"
    by (rule registry_ok_step [of st]) (use assms in \<open>auto simp: inv_def same_heap_ident\<close>)
  moreover have "delivery_ok st'"
    by (rule delivery_ok_step [of st]) (use assms in \<open>simp_all add: inv_def same_heap_ident\<close>)
  ultimately show ?thesis by (simp add: inv_def)
qed


lemma inv_publish:
  assumes "inv st" and "a < length (heap st)" and "room = sessionId (task_at st a)"
    and "ev_sessionId d = room"
  shows "inv (publish a room d st)"
proof -
  let ?st = "publish a room d st"
  have t: "task_at ?st b = task_at st b" for b
    by (simp add: task_at_def)
  have "registry_ok ?st"
    by (rule registry_ok_step [of st]) (use assms(1) in \<open>auto simp: inv_def same_heap_ident\<close>)
  moreover have "delivery_ok ?st"
  proof (rule delivery_ok_step [of st])
    show "delivery_ok st" using assms(1) by (simp add: inv_def)
    show "length (heap st) \<le> length (heap ?st)" by simp
    show "same_ident (task_at st b) (task_at ?st b)" for b
      by (simp add: same_heap_ident)
    show "m \<in> set (rooms st) \<or> snd m = snd (fst m)" if "m \<in> set (rooms ?st)" for m
      using that by simp
    show "c \<in> set (pending st) \<or> fst c < length (heap ?st)" if "c \<in> set (pending ?st)" for c
      using that by simp
  next
    fix e
    assume "e \<in> set (emitted ?st)"
    then have "e \<in> set (emitted st) \<or> e = (a, room, d)"
      by (auto simp: publish_def)
    then show "e \<in> set (emitted st) \<or>
           (fst e < length (heap ?st) \<and> fst (snd e) = sessionId (task_at ?st (fst e)) \<and>
            ev_sessionId (snd (snd e)) = sessionId (task_at ?st (fst e)))"
      using assms(2,3,4) t by auto
  next
    fix r
    assume "r \<in> set (received ?st)"
    then consider "r \<in> set (received st)"
      | m where "m \<in> set (rooms st)" "snd m = room" "r = (fst m, a, d)"
      by (auto simp: publish_def)
    then show "r \<in> set (received st) \<or>
           (fst (snd r) < length (heap ?st) \<and> sessionId (task_at ?st (fst (snd r))) = snd (fst r) \<and>
            ev_sessionId (snd (snd r)) = snd (fst r))"
    proof cases
      case 1
      then show ?thesis by simp
    next
      case 2
      from assms(1) 2(1) have "snd m = snd (fst m)"
        by (simp add: inv_def delivery_ok_def)
      with 2 assms(2,3,4) t show ?thesis by simp
    qed
  qed
  ultimately show ?thesis by (simp add: inv_def)
qed

lemma sessionTasks_remove_task:
  "sessionTasks (remove_task a st) =
     (case map_of (sessionTasks st) (sessionId (task_at st a)) of
        Some m \<Rightarrow> obj_set (sessionId (task_at st a)) (obj_delete (taskId (task_at st a)) m)
                   (sessionTasks st)
      | None \<Rightarrow> sessionTasks st)"
  by (simp add: remove_task_def Let_def split: option.splits)

lemma inv_remove_task:
  assumes "inv st"
  shows "inv (remove_task a st)"
proof -
  let ?st = "remove_task a st"
  let ?sid = "sessionId (task_at st a)"
  have "registry_ok ?st"
  proof (rule registry_ok_step [of st])
    show "registry_ok st" using assms by (simp add: inv_def)
    show "length (heap st) \<le> length (heap ?st)" by simp
    show "same_ident (task_at st b) (task_at ?st b)" for b
      by (simp add: same_heap_ident)
  next
    fix e p
    assume e: "e \<in> set (sessionTasks ?st)" and p: "p \<in> set (snd e)"
    have "\<exists>e' \<in> set (sessionTasks st). fst e' = fst e \<and> p \<in> set (snd e')"
    proof (cases "map_of (sessionTasks st) ?sid")
      case None
      with e p show ?thesis
        by (auto simp: sessionTasks_remove_task)
    next
      case (Some m)
      then have m: "(?sid, m) \<in> set (sessionTasks st)"
        by (rule map_of_SomeD)
      from e Some have "e \<in> set (sessionTasks st) \<or> e = (?sid, obj_delete (taskId (task_at st a)) m)"
        using set_obj_set [of ?sid "obj_delete (taskId (task_at st a)) m" "sessionTasks st"]
        by (auto simp: sessionTasks_remove_task)
      then show ?thesis
      proof
        assume "e \<in> set (sessionTasks st)"
        with p show ?thesis by blast
      next
        assume "e = (?sid, obj_delete (taskId (task_at st a)) m)"
        with p have "fst e = ?sid" "p \<in> set m"
          using set_obj_delete [of "taskId (task_at st a)" m] by auto
        with m show ?thesis
          by (intro bexI [of _ "(?sid, m)"]) simp_all
      qed
    qed
    then show "(\<exists>e' \<in> set (sessionTasks st). fst e' = fst e \<and> p \<in> set (snd e')) \<or>
           (snd p < length (heap ?st) \<and> sessionId (task_at ?st (snd p)) = fst e \<and>
            taskId (task_at ?st (snd p)) = fst p \<and>
            threadId (config (task_at ?st (snd p))) = fst p \<and> \<not> inherited (fst p))"
      by blast
  qed
  moreover have "delivery_ok ?st"
    by (rule delivery_ok_step [of st]) (use assms in \<open>simp_all add: inv_def same_heap_ident\<close>)
  ultimately show ?thesis by (simp add: inv_def)
qed

lemma inv_write_task:
  assumes "inv st" and "a < length (heap st)" and "same_ident (task_at st a) s"
  shows "inv (write_task a s p st)"
proof -
  let ?st = "write_task a s p st"
  have id: "same_ident (task_at st b) (task_at ?st b)" for b
    using assms(2,3) by (simp add: task_at_write)
  have "registry_ok ?st"
    by (rule registry_ok_step [of st]) (use assms(1) id in \<open>auto simp: inv_def\<close>)
  moreover have "delivery_ok ?st"
    by (rule delivery_ok_step [of st]) (use assms(1) id in \<open>simp_all add: inv_def\<close>)
  ultimately show ?thesis by (simp add: inv_def)
qed

lemma inv_more_pending:
  assumes "inv st" and "a < length (heap st)"
  shows "inv (st\<lparr>pending := pending st @ [(a, c)]\<rparr>)"
  by (rule inv_same_registry [OF assms(1)]) (use assms(2) in auto)

lemma inv_cleanup:
  assumes "inv st" and "a < length (heap st)"
  shows "inv (cleanup a b st)"
proof (cases "page (task_at st a) \<or> browser (task_at st a)")
  case True
  then have "cleanup a b st =
      st\<lparr>pending := pending st @ [(a, if b then Delete_then_stopped else Delete_only)]\<rparr>"
    by (simp add: cleanup_def)
  then show ?thesis
    using inv_more_pending [OF assms] by simp
next
  case False
  have r: "inv (remove_task a st)"
    using assms(1) by (rule inv_remove_task)
  have "cleanup a b st =
      (if b then (remove_task a st)\<lparr>pending := pending (remove_task a st) @ [(a, Stopped_only)]\<rparr>
       else remove_task a st)"
    using False by (simp add: cleanup_def Let_def)
  then show ?thesis
    using r inv_more_pending [OF r, of a Stopped_only] assms(2) by simp
qed

lemma own_actions_Cons:
  "own_actions sid (act # acts) \<longleftrightarrow> own_actions sid [act] \<and> own_actions sid acts"
  by (simp add: own_actions_def)

lemma own_actions_append:
  "own_actions sid (xs @ ys) \<longleftrightarrow> own_actions sid xs \<and> own_actions sid ys"
  by (auto simp: own_actions_def)

lemma own_actions_emitStatus [simp]: "own_actions (sessionId s) [emitStatus s st msg]"
  by (simp add: own_actions_def emitStatus_def status_data_def)

lemma own_actions_simps [simp]:
  "own_actions sid []" "own_actions sid [Delay ms]" "own_actions sid [SetCookie c]"
  "own_actions sid [Cleanup]"
  by (simp_all add: own_actions_def)

lemma inv_perform:
  assumes "inv st" and "a < length (heap st)" and "own_actions (sessionId (task_at st a)) [act]"
  shows "inv (perform a act st)"
proof (cases act)
  case (Emit room d)
  then show ?thesis
    using assms inv_publish [of st a room d] by (simp add: perform_def own_actions_def)
next
  case Cleanup
  then show ?thesis
    using inv_cleanup [OF assms(1,2)] by (simp add: perform_def)
qed (use assms(1) in \<open>simp_all add: perform_def\<close>)

lemma inv_perform_all:
  assumes "inv st" and "a < length (heap st)" and "own_actions (sessionId (task_at st a)) acts"
  shows "inv (perform_all a acts st)"
  using assms
proof (induction acts arbitrary: st)
  case Nil
  then show ?case by simp
next
  case (Cons act acts)
  from Cons.prems(3) have o: "own_actions (sessionId (task_at st a)) [act]"
    "own_actions (sessionId (task_at st a)) acts"
    using own_actions_Cons by blast+
  have i: "inv (perform a act st)"
    using Cons.prems(1,2) o(1) by (rule inv_perform)
  have "task_at (perform a act st) a = task_at st a"
    by (simp add: task_at_def)
  with Cons.IH [OF i] Cons.prems(2) o(2) show ?case by simp
qed

lemma stopped_event_own: "own_actions (sessionId s) [stopped_event s]"
  by (simp add: stopped_event_def)

lemma resume_returns: "fst (resume a c page_close browser_close st) = Returns ()"
  by (cases c) (simp_all add: resume_def finish_cleanup_def split: attempt.splits)

lemma snd_resume:
  "snd (resume a c page_close browser_close st) =
     (case c of
        Delete_only \<Rightarrow> remove_task a st
      | Delete_then_stopped \<Rightarrow> perform a (stopped_event (task_at st a)) (remove_task a st)
      | Stopped_only \<Rightarrow> perform a (stopped_event (task_at st a)) st)"
  by (cases c) (simp_all add: resume_def finish_cleanup_def task_at_def split: attempt.splits)

lemma inv_resume:
  assumes "inv st" and "a < length (heap st)"
  shows "inv (snd (resume a c page_close browser_close st))"
proof (cases c)
  case Delete_then_stopped
  let ?st = "remove_task a st"
  have "inv ?st" using assms(1) by (rule inv_remove_task)
  moreover have "a < length (heap ?st)" using assms(2) by simp
  ultimately have "inv (perform a (stopped_event (task_at ?st a)) ?st)"
    using stopped_event_own by (rule inv_perform)
  with Delete_then_stopped show ?thesis by (simp add: snd_resume task_at_def)
next
  case Delete_only
  then show ?thesis using inv_remove_task [OF assms(1)] by (simp add: snd_resume)
next
  case Stopped_only
  have "inv (perform a (stopped_event (task_at st a)) st)"
    using assms stopped_event_own by (rule inv_perform)
  with Stopped_only show ?thesis by (simp add: snd_resume)
qed

lemma inv_stop:
  assumes "inv st" and "a < length (heap st)"
  shows "inv (stop a now st)"
proof -
  let ?s = "(task_at st a)\<lparr>isRunning := False, stopTime := Some now\<rparr>"
  let ?st1 = "write_task a ?s (pc_at st a) st"
  let ?st2 = "perform a (emitStatus ?s St_stopping ''Stopping task...'') ?st1"
  have 1: "inv ?st1"
    using assms by (rule inv_write_task) (simp add: same_ident_def)
  have a1: "a < length (heap ?st1)" using assms(2) by simp
  have t: "task_at ?st1 a = ?s" using assms(2) by (simp add: task_at_write)
  have "own_actions (sessionId (task_at ?st1 a)) [emitStatus ?s St_stopping ''Stopping task...'']"
    unfolding t by (rule own_actions_emitStatus)
  with 1 a1 have 2: "inv ?st2" by (rule inv_perform)
  have "a < length (heap ?st2)" using assms(2) by simp
  with 2 have "inv (cleanup a True ?st2)" by (rule inv_cleanup)
  then show ?thesis by (simp add: stop_def Let_def)
qed


lemma init_failed_props:
  "init_failed s m = (s1, acts, ok) \<Longrightarrow> s1 = s \<and> own_actions (sessionId s) acts \<and> \<not> ok"
  by (auto simp: init_failed_def)

lemma init_props_case:
  "case init io s of (s1, acts, ok) \<Rightarrow> same_ident s s1 \<and> own_actions (sessionId s) acts"
  by (simp add: init_def init_failed_def Let_def same_ident_def own_actions_def emitStatus_def
      status_data_def split: attempt.splits)

lemma init_props:
  assumes "init io s = (s1, acts, ok)"
  shows "same_ident s s1 \<and> own_actions (sessionId s) acts"
  using init_props_case [where io = io and s = s] assms by simp

lemma set_cookies_own: "set_cookies f cs = (acts, r) \<Longrightarrow> own_actions sid acts"
proof (induction cs arbitrary: acts r)
  case Nil
  then show ?case by simp
next
  case (Cons c cs)
  show ?case
  proof (cases "f c")
    case (Throws m)
    with Cons.prems show ?thesis by auto
  next
    case (Returns u)
    obtain acts' r' where s: "set_cookies f cs = (acts', r')"
      by (cases "set_cookies f cs")
    with Cons.prems Returns have "acts = SetCookie c # acts'" by simp
    moreover have "own_actions sid acts'"
      using Cons.IH [OF s] .
    ultimately show ?thesis
      using own_actions_Cons [of sid "SetCookie c" acts'] by simp
  qed
qed

lemma connect_own: "connect io s = (acts, r) \<Longrightarrow> own_actions sid acts"
proof -
  assume c: "connect io s = (acts, r)"
  obtain acts' r' where s: "set_cookies (io_setCookie io) (parseCookies (cookie (config s))) = (acts', r')"
    by (cases "set_cookies (io_setCookie io) (parseCookies (cookie (config s)))")
  have "own_actions sid acts'" using set_cookies_own [OF s] .
  with c s show ?thesis
    by (auto simp: connect_def split: attempt.splits)
qed

lemma send_pass_props:
  assumes "send_pass out s = (s1, acts, b)"
  shows "same_ident s s1 \<and> own_actions (sessionId s) acts"
proof (cases out)
  case Sent
  with assms show ?thesis
    by (auto simp: send_pass_sent same_ident_def own_actions_def emitStatus_def status_data_def)
next
  case (Failed m)
  with assms show ?thesis
    by (auto simp: send_pass_failed same_ident_def own_actions_def emitStatus_def status_data_def
        split: if_splits)
qed


lemma tasks_of_entry:
  "p \<in> set (tasks_of st sid) \<Longrightarrow> \<exists>e \<in> set (sessionTasks st). fst e = sid \<and> p \<in> set (snd e)"
proof -
  assume p: "p \<in> set (tasks_of st sid)"
  then obtain m where m: "map_of (sessionTasks st) sid = Some m"
    by (cases "map_of (sessionTasks st) sid") (simp_all add: tasks_of_def)
  then have "(sid, m) \<in> set (sessionTasks st)" by (rule map_of_SomeD)
  moreover have "p \<in> set m" using p m by (simp add: tasks_of_def)
  ultimately show ?thesis
    by (intro bexI [of _ "(sid, m)"]) simp_all
qed

lemma registered_task:
  assumes "inv st" and "p \<in> set (tasks_of st sid)"
  shows "snd p < length (heap st) \<and> sessionId (task_at st (snd p)) = sid \<and>
     taskId (task_at st (snd p)) = fst p \<and> threadId (config (task_at st (snd p))) = fst p \<and>
     \<not> inherited (fst p)"
proof -
  from tasks_of_entry [OF assms(2)] obtain e where
    "e \<in> set (sessionTasks st)" "fst e = sid" "p \<in> set (snd e)" by blast
  with assms(1) show ?thesis
    by (auto simp: inv_def registry_ok_def)
qed

lemma inv_post_start_task:
  assumes "inv st"
  shows "inv (snd (post_start_task sid req now st))"
proof -
  let ?st1 = "initSessionTasks sid st"
  have i1: "inv ?st1" using assms by (rule inv_initSessionTasks)
  show ?thesis
  proof (cases "fst (post_start_task sid req now st) = Started (req_threadId req) sid")
    case False
    then have "snd (post_start_task sid req now st) = ?st1"
      by (auto simp: post_start_task_def Let_def split: option.splits if_splits)
    with i1 show ?thesis by simp
  next
    case True
    then obtain path where path: "req_file req = Some path"
      by (cases "req_file req") (simp_all add: post_start_task_def Let_def)
    from True path have False: "\<not> (req_cookie req = [] \<or> req_threadId req = [] \<or>
      req_delay req = [] \<or> truthy_at (tasks_of ?st1 sid) (req_threadId req))"
      by (auto simp: post_start_task_def Let_def split: if_splits)
    let ?tid = "req_threadId req"
    let ?cfg = "\<lparr>cookie = req_cookie req, threadId = req_threadId req,
                   hattersName = req_hattersName req, delay = parseInt (req_delay req),
                   filePath = path\<rparr>"
    let ?a = "length (heap ?st1)"
    let ?st2 = "?st1\<lparr>heap := heap ?st1 @ [(new_sender ?tid ?cfg sid now, At_init)],
                      sessionTasks := obj_set sid (obj_set ?tid ?a (tasks_of ?st1 sid)) (sessionTasks ?st1)\<rparr>"
    from False path have eq: "snd (post_start_task sid req now st) = ?st2"
      by (simp add: post_start_task_def Let_def)
    from False have ninh: "\<not> inherited ?tid"
      by (simp add: truthy_at_def)
    have old: "task_at ?st2 b = task_at ?st1 b" if "b < length (heap ?st1)" for b
      using that by (simp add: task_at_def nth_append)
    have new: "task_at ?st2 ?a = new_sender ?tid ?cfg sid now"
      by (simp add: task_at_def)
    have "registry_ok ?st2"
    proof (rule registry_ok_step [of ?st1])
      show "registry_ok ?st1" using i1 by (simp add: inv_def)
      show "length (heap ?st1) \<le> length (heap ?st2)" by simp
      show "same_ident (task_at ?st1 b) (task_at ?st2 b)" if "b < length (heap ?st1)" for b
        using old [OF that] by simp
    next
      fix e p
      assume e: "e \<in> set (sessionTasks ?st2)" and p: "p \<in> set (snd e)"
      from e have "e \<in> set (sessionTasks ?st1) \<or> e = (sid, obj_set ?tid ?a (tasks_of ?st1 sid))"
        using set_obj_set [of sid "obj_set ?tid ?a (tasks_of ?st1 sid)" "sessionTasks ?st1"]
        by auto
      then show "(\<exists>e' \<in> set (sessionTasks ?st1). fst e' = fst e \<and> p \<in> set (snd e')) \<or>
           (snd p < length (heap ?st2) \<and> sessionId (task_at ?st2 (snd p)) = fst e \<and>
            taskId (task_at ?st2 (snd p)) = fst p \<and>
            threadId (config (task_at ?st2 (snd p))) = fst p \<and> \<not> inherited (fst p))"
      proof
        assume "e \<in> set (sessionTasks ?st1)"
        with p show ?thesis by blast
      next
        assume e2: "e = (sid, obj_set ?tid ?a (tasks_of ?st1 sid))"
        with p have "p = (?tid, ?a) \<or> p \<in> set (tasks_of ?st1 sid)"
          using set_obj_set [of ?tid ?a "tasks_of ?st1 sid"] by auto
        then show ?thesis
        proof
          assume "p = (?tid, ?a)"
          then show ?thesis
            using e2 new ninh by (simp add: new_sender_def)
        next
          assume "p \<in> set (tasks_of ?st1 sid)"
          from tasks_of_entry [OF this] e2 show ?thesis by simp
        qed
      qed
    qed
    moreover have "delivery_ok ?st2"
    proof (rule delivery_ok_step [of ?st1])
      show "delivery_ok ?st1" using i1 by (simp add: inv_def)
      show "same_ident (task_at ?st1 b) (task_at ?st2 b)" if "b < length (heap ?st1)" for b
        using old [OF that] by simp
    qed simp_all
    ultimately show ?thesis
      unfolding eq by (simp add: inv_def)
  qed
qed

lemma inv_post_stop_task:
  assumes "inv st"
  shows "inv (snd (post_stop_task sid tid now st))"
proof (cases "map_of (tasks_of st sid) tid")
  case None
  then show ?thesis
    using assms by (simp add: post_stop_task_def)
next
  case (Some a)
  then have "(tid, a) \<in> set (tasks_of st sid)" by (rule map_of_SomeD)
  from registered_task [OF assms this] have "a < length (heap st)" by simp
  with assms have "inv (stop a now st)" by (rule inv_stop)
  with Some assms show ?thesis
    by (simp add: post_stop_task_def)
qed

lemma inv_get_active_tasks: "inv st \<Longrightarrow> inv (snd (get_active_tasks sid st))"
  by (simp add: get_active_tasks_def Let_def inv_initSessionTasks)

lemma inv_socket_connect:
  assumes "inv st"
  shows "inv (socket_connect k st)"
proof -
  let ?st = "socket_connect k st"
  have h: "heap ?st = heap st" by (simp add: socket_connect_def)
  have "registry_ok ?st"
    by (rule registry_ok_step [of st])
      (use assms in \<open>auto simp: inv_def socket_connect_def task_at_def\<close>)
  moreover have "delivery_ok ?st"
    by (rule delivery_ok_step [of st])
      (use assms in \<open>auto simp: inv_def socket_connect_def task_at_def\<close>)
  ultimately show ?thesis by (simp add: inv_def)
qed

lemma inv_socket_disconnect:
  assumes "inv st"
  shows "inv (socket_disconnect k st)"
proof -
  let ?st = "socket_disconnect k st"
  have "registry_ok ?st"
    by (rule registry_ok_step [of st])
      (use assms in \<open>auto simp: inv_def socket_disconnect_def task_at_def\<close>)
  moreover have "delivery_ok ?st"
    by (rule delivery_ok_step [of st])
      (use assms in \<open>auto simp: inv_def socket_disconnect_def task_at_def\<close>)
  ultimately show ?thesis by (simp add: inv_def)
qed

lemma report_running_heap [simp]: "heap (report_running as st) = heap st"
  by (induction as arbitrary: st) (simp_all add: Let_def)

lemma inv_report_running:
  assumes "inv st" and "\<forall>a \<in> set as. a < length (heap st)"
  shows "inv (report_running as st)"
  using assms
proof (induction as arbitrary: st)
  case Nil
  then show ?case by simp
next
  case (Cons a as)
  let ?s = "task_at st a"
  let ?st1 = "if isRunning ?s
         then perform a (emitStatus ?s St_active
                 (''Task running - '' @ show_nat (totalSent ?s) @ '' messages sent'')) st
         else st"
  have a: "a < length (heap st)" using Cons.prems(2) by simp
  have "inv (perform a (emitStatus ?s St_active
                 (''Task running - '' @ show_nat (totalSent ?s) @ '' messages sent'')) st)"
    using Cons.prems(1) a by (rule inv_perform) simp
  then have 1: "inv ?st1" using Cons.prems(1) by simp
  have h: "heap ?st1 = heap st" by simp
  have "inv (report_running as ?st1)"
    using 1 Cons.prems(2) by (intro Cons.IH) (simp_all only: h, simp)
  then show ?case by (simp add: Let_def)
qed

lemma inv_socket_getSessionTasks:
  assumes "inv st"
  shows "inv (socket_getSessionTasks k st)"
proof -
  have "\<forall>a \<in> set (map snd (tasks_of st (snd k))). a < length (heap st)"
    using registered_task [OF assms] by auto
  with assms have "inv (report_running (map snd (tasks_of st (snd k))) st)"
    by (rule inv_report_running)
  with assms show ?thesis by (simp add: socket_getSessionTasks_def)
qed

lemma inv_sweep: "inv st \<Longrightarrow> inv (sweep st)"
  by (rule inv_same_registry [of st]) (simp_all add: sweep_def)

lemma inv_timer_fires:
  assumes "inv st"
  shows "inv (timer_fires st)"
proof (cases "timers st")
  case Nil
  with assms show ?thesis by (simp add: timer_fires_def)
next
  case (Cons sid rest)
  let ?st = "st\<lparr>timers := rest, sessionTasks := obj_delete sid (sessionTasks st),
             sessionBrowsers := obj_delete sid (sessionBrowsers st)\<rparr>"
  have "registry_ok ?st"
  proof (rule registry_ok_step [of st])
    show "registry_ok st" using assms by (simp add: inv_def)
    show "same_ident (task_at st b) (task_at ?st b)" for b
      by (simp add: task_at_def)
  next
    fix e p
    assume "e \<in> set (sessionTasks ?st)" and p: "p \<in> set (snd e)"
    then have "e \<in> set (sessionTasks st)"
      using set_obj_delete [of sid "sessionTasks st"] by auto
    with p show "(\<exists>e' \<in> set (sessionTasks st). fst e' = fst e \<and> p \<in> set (snd e')) \<or>
           (snd p < length (heap ?st) \<and> sessionId (task_at ?st (snd p)) = fst e \<and>
            taskId (task_at ?st (snd p)) = fst p \<and>
            threadId (config (task_at ?st (snd p))) = fst p \<and> \<not> inherited (fst p))"
      by blast
  qed simp
  moreover have "delivery_ok ?st"
    by (rule delivery_ok_step [of st]) (use assms in \<open>simp_all add: inv_def task_at_def\<close>)
  ultimately show ?thesis
    using Cons by (simp add: timer_fires_def inv_def)
qed


lemma inv_write_perform:
  assumes "inv st" and "a < length (heap st)" and "same_ident (task_at st a) s"
    and "own_actions (sessionId s) acts"
  shows "inv (perform_all a acts (write_task a s p st))"
proof -
  have 1: "inv (write_task a s p st)"
    using assms(1,2,3) by (rule inv_write_task)
  have 2: "a < length (heap (write_task a s p st))"
    using assms(2) by simp
  have "task_at (write_task a s p st) a = s"
    using assms(2) by (simp add: task_at_write)
  with assms(4) have "own_actions (sessionId (task_at (write_task a s p st) a)) acts"
    by simp
  with 1 2 show ?thesis by (rule inv_perform_all)
qed

lemma inv_task_init:
  assumes "inv st"
  shows "inv (task_init a io st)"
proof (cases "a < length (heap st) \<and> pc_at st a = At_init")
  case False
  with assms show ?thesis by (auto simp: task_init_def)
next
  case True
  let ?s = "task_at st a"
  obtain s1 acts ok where i: "init io ?s = (s1, acts, ok)"
    by (cases "init io ?s")
  from init_props [OF i] have id: "same_ident ?s s1" and own: "own_actions (sessionId ?s) acts"
    by simp_all
  have sid: "sessionId s1 = sessionId ?s"
    using id by (simp add: same_ident_def)
  show ?thesis
  proof (cases ok)
    case False
    have "inv (perform_all a acts (write_task a s1 Done st))"
      using assms True id own sid by (intro inv_write_perform) simp_all
    with True i False show ?thesis by (simp add: task_init_def)
  next
    case ok: True
    let ?s2 = "s1\<lparr>isRunning := True\<rparr>"
    let ?acts = "acts @ [emitStatus ?s2 St_starting ''Initializing browser and navigating to Facebook...'']"
    have "same_ident ?s ?s2" using id by (simp add: same_ident_def)
    moreover have "own_actions (sessionId ?s2) ?acts"
      using own sid own_actions_emitStatus [of ?s2] by (simp add: own_actions_append)
    ultimately have "inv (perform_all a ?acts (write_task a ?s2 At_connect st))"
      using assms True by (intro inv_write_perform) simp_all
    with True i ok show ?thesis by (simp add: task_init_def Let_def)
  qed
qed

lemma inv_task_connect:
  assumes "inv st"
  shows "inv (task_connect a io st)"
proof (cases "a < length (heap st) \<and> pc_at st a = At_connect")
  case False
  with assms show ?thesis by (auto simp: task_connect_def)
next
  case True
  let ?s = "task_at st a"
  obtain acts r where c: "connect io ?s = (acts, r)"
    by (cases "connect io ?s")
  have own: "own_actions (sessionId ?s) acts"
    using c by (rule connect_own)
  show ?thesis
  proof (cases r)
    case (Throws m)
    let ?acts = "acts @ [emitStatus ?s St_error (''Failed to start: '' @ m), Cleanup]"
    have "own_actions (sessionId ?s) ?acts"
      using own own_actions_Cons [of "sessionId ?s" "emitStatus ?s St_error (''Failed to start: '' @ m)" "[Cleanup]"]
      by (simp add: own_actions_append)
    then have "inv (perform_all a ?acts (write_task a (?s\<lparr>isRunning := False\<rparr>) Done st))"
      using assms True by (intro inv_write_perform) (simp_all add: same_ident_def)
    with True c Throws show ?thesis by (simp add: task_connect_def Let_def)
  next
    case (Returns u)
    let ?acts = "acts @ [emitStatus ?s St_active ''Connected to Facebook. Starting message sending...'']"
    have "own_actions (sessionId ?s) ?acts"
      using own by (simp add: own_actions_append)
    then have "inv (perform_all a ?acts (write_task a ?s At_loop st))"
      using assms True by (intro inv_write_perform) simp_all
    with True c Returns show ?thesis by (simp add: task_connect_def Let_def)
  qed
qed

lemma inv_task_pass:
  assumes "inv st"
  shows "inv (task_pass a out st)"
proof (cases "a < length (heap st) \<and> pc_at st a = At_loop")
  case False
  with assms show ?thesis by (auto simp: task_pass_def)
next
  case True
  let ?s = "task_at st a"
  show ?thesis
  proof (cases "isRunning ?s")
    case False
    have "inv (perform_all a [Cleanup] (write_task a ?s Done st))"
      using assms True by (intro inv_write_perform) simp_all
    with True False show ?thesis by (simp add: task_pass_def Let_def)
  next
    case running: True
    obtain s1 acts b where p: "send_pass out ?s = (s1, acts, b)"
      by (cases "send_pass out ?s")
    from send_pass_props [OF p] have id: "same_ident ?s s1" and own: "own_actions (sessionId ?s) acts"
      by simp_all
    have sid: "sessionId s1 = sessionId ?s"
      using id by (simp add: same_ident_def)
    show ?thesis
    proof (cases b)
      case True
      have "own_actions (sessionId s1) (acts @ [Cleanup])"
        using own sid by (simp add: own_actions_append)
      then have "inv (perform_all a (acts @ [Cleanup]) (write_task a s1 Done st))"
        using assms \<open>a < length (heap st) \<and> pc_at st a = At_loop\<close> id
        by (intro inv_write_perform) simp_all
      with \<open>a < length (heap st) \<and> pc_at st a = At_loop\<close> running p True show ?thesis
        by (simp add: task_pass_def Let_def)
    next
      case False
      have "inv (perform_all a acts (write_task a s1 At_loop st))"
        using assms \<open>a < length (heap st) \<and> pc_at st a = At_loop\<close> id own sid
        by (intro inv_write_perform) simp_all
      with \<open>a < length (heap st) \<and> pc_at st a = At_loop\<close> running p False show ?thesis
        by (simp add: task_pass_def Let_def)
    qed
  qed
qed

lemma pending_without:
  "set (take i ps @ drop (Suc i) ps) \<subseteq> set ps"
  using set_take_subset [of i ps] set_drop_subset [of "Suc i" ps] by auto

lemma inv_resume_at:
  assumes "inv st"
  shows "inv (resume_at i page_close browser_close st)"
proof (cases "i < length (pending st)")
  case False
  with assms show ?thesis by (simp add: resume_at_def)
next
  case True
  let ?c = "pending st ! i"
  let ?st = "st\<lparr>pending := take i (pending st) @ drop (Suc i) (pending st)\<rparr>"
  have "?c \<in> set (pending st)" using True by simp
  then have a: "fst ?c < length (heap st)"
    using assms by (simp add: inv_def delivery_ok_def)
  have "inv ?st"
    by (rule inv_same_registry [OF assms]) (use pending_without [of i "pending st"] in auto)
  moreover have "fst ?c < length (heap ?st)" using a by simp
  ultimately have "inv (snd (resume (fst ?c) (snd ?c) page_close browser_close ?st))"
    by (rule inv_resume)
  with True show ?thesis by (simp add: resume_at_def)
qed

lemma inv_exec: "inv st \<Longrightarrow> inv (exec x st)"
  by (cases x)
    (simp_all add: inv_initSessionTasks inv_post_start_task inv_post_stop_task inv_get_active_tasks
      inv_socket_connect inv_socket_disconnect inv_socket_getSessionTasks inv_sweep inv_timer_fires
      inv_task_init inv_task_connect inv_task_pass inv_resume_at)

lemma inv_run: "inv st \<Longrightarrow> inv (run xs st)"
  by (induction xs arbitrary: st) (simp_all add: inv_exec)

lemma inv_initial: "inv initial"
  by (simp add: inv_def registry_ok_def delivery_ok_def initial_def)

lemma inv_reachable: "inv (run xs initial)"
  using inv_initial by (rule inv_run)


lemma tasks_of_initSessionTasks [simp]: "tasks_of (initSessionTasks sid st) sid' = tasks_of st sid'"
  by (cases "map_of (sessionTasks st) sid")
    (simp_all add: tasks_of_def sessionTasks_initSessionTasks map_of_obj_set)

lemma task_at_initSessionTasks [simp]: "task_at (initSessionTasks sid st) a = task_at st a"
  by (simp add: task_at_def)

lemma post_start_task_other_session:
  assumes "S1 \<noteq> S2"
  shows "tasks_of (snd (post_start_task S1 req now st)) S2 = tasks_of st S2"
  using assms
  by (simp add: post_start_task_def Let_def tasks_of_def map_of_obj_set
      sessionTasks_initSessionTasks split: option.splits)

lemma post_start_task_heap:
  "a < length (heap st) \<Longrightarrow> task_at (snd (post_start_task sid req now st)) a = task_at st a"
  by (simp add: post_start_task_def Let_def task_at_def nth_append split: option.splits)

lemma listing_other_session:
  assumes "inv st" and "S1 \<noteq> S2"
  shows "fst (get_active_tasks S2 (snd (post_start_task S1 req now st))) = fst (get_active_tasks S2 st)"
proof -
  let ?st = "snd (post_start_task S1 req now st)"
  have "summary (initSessionTasks S2 ?st) S2 p = summary (initSessionTasks S2 st) S2 p"
    if "p \<in> set (tasks_of st S2)" for p
  proof -
    from registered_task [OF assms(1) that] have "snd p < length (heap st)" by simp
    then show ?thesis
      by (simp add: summary_def post_start_task_heap)
  qed
  then show ?thesis
    by (simp add: get_active_tasks_def Let_def post_start_task_other_session [OF assms(2)])
qed

lemma listing_rows:
  assumes "inv st" and "r \<in> set (fst (get_active_tasks sid st))"
  shows "sum_sessionId r = sid \<and>
     (\<exists>a. (sum_taskId r, a) \<in> set (tasks_of st sid) \<and> a < length (heap st) \<and>
        sessionId (task_at st a) = sid \<and> taskId (task_at st a) = sum_taskId r \<and>
        sum_isRunning r = isRunning (task_at st a) \<and> sum_totalSent r = totalSent (task_at st a) \<and>
        sum_currentIndex r = currentIndex (task_at st a) \<and>
        sum_totalMessages r = length (messages (task_at st a)))"
proof -
  from assms(2) obtain p where p: "p \<in> set (tasks_of st sid)"
    and r: "r = summary (initSessionTasks sid st) sid p"
    by (auto simp: get_active_tasks_def Let_def)
  from registered_task [OF assms(1) p] p r show ?thesis
    by (intro conjI exI [of _ "snd p"]) (simp_all add: summary_def Let_def)
qed

lemma listing_entries:
  "fst (get_active_tasks sid st) =
     map (\<lambda>p. \<lparr>sum_taskId = fst p, sum_isRunning = isRunning (task_at st (snd p)),
               sum_totalSent = totalSent (task_at st (snd p)),
               sum_currentIndex = currentIndex (task_at st (snd p)),
               sum_totalMessages = length (messages (task_at st (snd p))),
               sum_sessionId = sid\<rparr>) (tasks_of st sid)"
  by (simp add: get_active_tasks_def Let_def summary_def)

text \<open>
  C1. In every state the server reaches, for sessions \<open>S1 \<noteq> S2\<close>: every row of the
  listing returned for \<open>S2\<close> carries the session id \<open>S2\<close> and shows the key, the running
  flag, the counts and the cursor of a task that is filed under that key in the task
  object of \<open>S2\<close> and whose own session id is \<open>S2\<close>, not \<open>S1\<close>; the listing has one such
  row for each entry of the task object of \<open>S2\<close>, read from the task the entry refers to;
  no entry of that object refers to a task of \<open>S1\<close>; starting a task under \<open>S1\<close>, whatever
  its key, leaves the listing returned for \<open>S2\<close> as it was; every status event went to the
  room named by the session id of the task that emitted it; and no socket of \<open>S2\<close> has
  received an event of a task of \<open>S1\<close>.
\<close>

theorem session_isolation:
  assumes "S1 \<noteq> S2"
  shows "(\<forall>r \<in> set (fst (get_active_tasks S2 (run ops initial))).
            sum_sessionId r = S2 \<and>
            (\<exists>a. (sum_taskId r, a) \<in> set (tasks_of (run ops initial) S2) \<and>
               a < length (heap (run ops initial)) \<and>
               sessionId (task_at (run ops initial) a) = S2 \<and>
               sessionId (task_at (run ops initial) a) \<noteq> S1 \<and>
               taskId (task_at (run ops initial) a) = sum_taskId r \<and>
               sum_isRunning r = isRunning (task_at (run ops initial) a) \<and>
               sum_totalSent r = totalSent (task_at (run ops initial) a) \<and>
               sum_currentIndex r = currentIndex (task_at (run ops initial) a) \<and>
               sum_totalMessages r = length (messages (task_at (run ops initial) a)))) \<and>
         fst (get_active_tasks S2 (run ops initial)) =
           map (\<lambda>p. \<lparr>sum_taskId = fst p,
                     sum_isRunning = isRunning (task_at (run ops initial) (snd p)),
                     sum_totalSent = totalSent (task_at (run ops initial) (snd p)),
                     sum_currentIndex = currentIndex (task_at (run ops initial) (snd p)),
                     sum_totalMessages = length (messages (task_at (run ops initial) (snd p))),
                     sum_sessionId = S2\<rparr>) (tasks_of (run ops initial) S2) \<and>
         (\<forall>p \<in> set (tasks_of (run ops initial) S2).
            sessionId (task_at (run ops initial) (snd p)) \<noteq> S1) \<and>
         fst (get_active_tasks S2 (snd (post_start_task S1 req now (run ops initial)))) =
           fst (get_active_tasks S2 (run ops initial)) \<and>
         (\<forall>e \<in> set (emitted (run ops initial)).
            fst (snd e) = sessionId (task_at (run ops initial) (fst e))) \<and>
         (\<forall>r \<in> set (received (run ops initial)).
            snd (fst r) = S2 \<longrightarrow> sessionId (task_at (run ops initial) (fst (snd r))) \<noteq> S1)"
proof -
  let ?st = "run ops initial"
  have i: "inv ?st" by (rule inv_reachable)
  have 0: "\<forall>r \<in> set (fst (get_active_tasks S2 ?st)).
            sum_sessionId r = S2 \<and>
            (\<exists>a. (sum_taskId r, a) \<in> set (tasks_of ?st S2) \<and> a < length (heap ?st) \<and>
               sessionId (task_at ?st a) = S2 \<and> sessionId (task_at ?st a) \<noteq> S1 \<and>
               taskId (task_at ?st a) = sum_taskId r \<and>
               sum_isRunning r = isRunning (task_at ?st a) \<and>
               sum_totalSent r = totalSent (task_at ?st a) \<and>
               sum_currentIndex r = currentIndex (task_at ?st a) \<and>
               sum_totalMessages r = length (messages (task_at ?st a)))"
  proof
    fix r assume "r \<in> set (fst (get_active_tasks S2 ?st))"
    from listing_rows [OF i this] assms show "sum_sessionId r = S2 \<and>
            (\<exists>a. (sum_taskId r, a) \<in> set (tasks_of ?st S2) \<and> a < length (heap ?st) \<and>
               sessionId (task_at ?st a) = S2 \<and> sessionId (task_at ?st a) \<noteq> S1 \<and>
               taskId (task_at ?st a) = sum_taskId r \<and>
               sum_isRunning r = isRunning (task_at ?st a) \<and>
               sum_totalSent r = totalSent (task_at ?st a) \<and>
               sum_currentIndex r = currentIndex (task_at ?st a) \<and>
               sum_totalMessages r = length (messages (task_at ?st a)))"
      by blast
  qed
  note 5 = listing_entries [of S2 ?st]
  have 1: "\<forall>p \<in> set (tasks_of ?st S2). sessionId (task_at ?st (snd p)) \<noteq> S1"
    using registered_task [OF i] assms by auto
  have 2: "fst (get_active_tasks S2 (snd (post_start_task S1 req now ?st))) =
           fst (get_active_tasks S2 ?st)"
    using i assms by (rule listing_other_session)
  have 3: "\<forall>e \<in> set (emitted ?st). fst (snd e) = sessionId (task_at ?st (fst e))"
    using i by (simp add: inv_def delivery_ok_def)
  have 4: "\<forall>r \<in> set (received ?st).
            snd (fst r) = S2 \<longrightarrow> sessionId (task_at ?st (fst (snd r))) \<noteq> S1"
    using i assms by (auto simp: inv_def delivery_ok_def)
  from 0 5 1 2 3 4 show ?thesis by (intro conjI)
qed

lemmas run_defs = post_start_task_def post_stop_task_def get_active_tasks_def initSessionTasks_def
  tasks_of_def truthy_at_def inherited_def object_prototype_names_def example_request_def
  new_sender_def initial_def sweep_def timer_fires_def obj_delete_def Let_def
  task_at_def pc_at_def stop_def write_task_def perform_def publish_def cleanup_def remove_task_def
  emitStatus_def status_data_def resume_at_def resume_def finish_cleanup_def try_close_def
  stopped_event_def
  socket_connect_def socket_disconnect_def socket_getSessionTasks_def
  task_init_def task_connect_def task_pass_def
  init_def example_init_io_def hi_there_def read_messages_def split_def trim_def is_ws_def
  connect_def example_connect_io_def parseCookies_def push_pair_def parseInt_def digit_value_def

lemma two_sessions_state:
  "fst (get_active_tasks ''s2'' (run two_sessions initial)) =
     [\<lparr>sum_taskId = ''t1'', sum_isRunning = True, sum_totalSent = 0, sum_currentIndex = 0,
       sum_totalMessages = 2, sum_sessionId = ''s2''\<rparr>] \<and>
   fst (get_active_tasks ''s1'' (run two_sessions initial)) =
     [\<lparr>sum_taskId = ''t1'', sum_isRunning = True, sum_totalSent = 1, sum_currentIndex = 1,
       sum_totalMessages = 2, sum_sessionId = ''s1''\<rparr>] \<and>
   tasks_of (run two_sessions initial) ''s2'' = [(''t1'', 1)] \<and>
   sessionId (task_at (run two_sessions initial) 1) = ''s2'' \<and>
   sessionId (task_at (run two_sessions initial) 0) = ''s1'' \<and>
   fst (get_active_tasks ''s2''
      (snd (post_start_task ''s1'' (example_request ''t2'' ''1'') 9 (run two_sessions initial)))) =
     [\<lparr>sum_taskId = ''t1'', sum_isRunning = True, sum_totalSent = 0, sum_currentIndex = 0,
       sum_totalMessages = 2, sum_sessionId = ''s2''\<rparr>] \<and>
   map (\<lambda>e. (fst e, fst (snd e))) (emitted (run two_sessions initial)) =
     [(0, ''s1''), (0, ''s1''), (0, ''s1''), (1, ''s2'')] \<and>
   map (\<lambda>r. (fst r, fst (snd r))) (received (run two_sessions initial)) = [((7, ''s2''), 1)]"
  by (simp add: two_sessions_def run_defs summary_def send_pass_def js_inc_def exact_limit_def
      mk_cookie_def)

theorem session_isolation_witness:
  "''s1'' \<noteq> ''s2'' \<and>
   fst (get_active_tasks ''s2'' (run two_sessions initial)) =
     [\<lparr>sum_taskId = ''t1'', sum_isRunning = True, sum_totalSent = 0, sum_currentIndex = 0,
       sum_totalMessages = 2, sum_sessionId = ''s2''\<rparr>] \<and>
   fst (get_active_tasks ''s1'' (run two_sessions initial)) =
     [\<lparr>sum_taskId = ''t1'', sum_isRunning = True, sum_totalSent = 1, sum_currentIndex = 1,
       sum_totalMessages = 2, sum_sessionId = ''s1''\<rparr>] \<and>
   tasks_of (run two_sessions initial) ''s2'' = [(''t1'', 1)] \<and>
   sessionId (task_at (run two_sessions initial) 1) = ''s2'' \<and>
   sessionId (task_at (run two_sessions initial) 0) = ''s1'' \<and>
   fst (get_active_tasks ''s2''
      (snd (post_start_task ''s1'' (example_request ''t2'' ''1'') 9 (run two_sessions initial)))) =
     [\<lparr>sum_taskId = ''t1'', sum_isRunning = True, sum_totalSent = 0, sum_currentIndex = 0,
       sum_totalMessages = 2, sum_sessionId = ''s2''\<rparr>] \<and>
   map (\<lambda>e. (fst e, fst (snd e))) (emitted (run two_sessions initial)) =
     [(0, ''s1''), (0, ''s1''), (0, ''s1''), (1, ''s2'')] \<and>
   map (\<lambda>r. (fst r, fst (snd r))) (received (run two_sessions initial)) = [((7, ''s2''), 1)]"
proof -
  have ne: "''s1'' \<noteq> ''s2''" by simp
  from session_isolation [OF ne, of two_sessions "example_request ''t2'' ''1''" 9] two_sessions_state ne
  show ?thesis by blast
qed


lemma tasks_of_remove_task:
  "map_of (tasks_of (remove_task a st) (sessionId (task_at st a))) (taskId (task_at st a)) = None"
  by (cases "map_of (sessionTasks st) (sessionId (task_at st a))")
    (simp_all add: tasks_of_def sessionTasks_remove_task map_of_obj_set map_of_obj_delete)

lemma post_start_task_duplicate:
  assumes "fields_present req" and "map_of (tasks_of st sid) (req_threadId req) \<noteq> None"
  shows "fst (post_start_task sid req now st) = Already_running \<and>
     heap (snd (post_start_task sid req now st)) = heap st \<and>
     sessionTasks (snd (post_start_task sid req now st)) = sessionTasks st"
proof -
  from assms(2) have "map_of (sessionTasks st) sid \<noteq> None"
    by (cases "map_of (sessionTasks st) sid") (simp_all add: tasks_of_def)
  then have "sessionTasks (initSessionTasks sid st) = sessionTasks st"
    by (auto simp: sessionTasks_initSessionTasks)
  with assms show ?thesis
    by (auto simp: post_start_task_def Let_def fields_present_def truthy_at_def)
qed

lemma tasks_of_registered:
  "tasks_of (st\<lparr>heap := h, sessionTasks := obj_set sid m (sessionTasks st)\<rparr>) sid = m"
  by (simp add: tasks_of_def map_of_obj_set)

lemma post_start_task_fresh:
  assumes "fields_present req" and "map_of (tasks_of st sid) (req_threadId req) = None"
    and "\<not> inherited (req_threadId req)"
  shows "fst (post_start_task sid req now st) = Started (req_threadId req) sid \<and>
     map_of (tasks_of (snd (post_start_task sid req now st)) sid) (req_threadId req) =
       Some (length (heap st)) \<and>
     length (heap (snd (post_start_task sid req now st))) = length (heap st) + 1"
proof -
  from assms(1) obtain path where path: "req_file req = Some path"
    by (auto simp: fields_present_def)
  have nt: "\<not> truthy_at (tasks_of (initSessionTasks sid st) sid) (req_threadId req)"
    using assms(2,3) by (simp add: truthy_at_def)
  show ?thesis
    using assms(1) path nt
    by (simp add: post_start_task_def Let_def fields_present_def tasks_of_registered map_of_obj_set)
qed

text \<open>
  C2. In every state the server reaches, for a start-task request with all its fields:
  if the session has a task under the request's key, the reply is the duplicate-key
  error, and neither a task nor a registry entry is made; once \<open>cleanup\<close> of that task
  has deleted the entry, the same request is accepted and its task is registered under
  the key; and a request is accepted whenever the session has no task under its key and
  the key is not a name that objects inherit.
\<close>

theorem key_uniqueness_and_reuse:
  assumes "fields_present req"
  shows "(map_of (tasks_of (run ops initial) sid) (req_threadId req) = Some a \<longrightarrow>
            fst (post_start_task sid req now (run ops initial)) = Already_running \<and>
            heap (snd (post_start_task sid req now (run ops initial))) = heap (run ops initial) \<and>
            sessionTasks (snd (post_start_task sid req now (run ops initial))) =
              sessionTasks (run ops initial) \<and>
            fst (post_start_task sid req now (remove_task a (run ops initial))) =
              Started (req_threadId req) sid \<and>
            map_of (tasks_of (snd (post_start_task sid req now (remove_task a (run ops initial)))) sid)
              (req_threadId req) = Some (length (heap (run ops initial)))) \<and>
         (map_of (tasks_of (run ops initial) sid) (req_threadId req) = None \<and>
          \<not> inherited (req_threadId req) \<longrightarrow>
            fst (post_start_task sid req now (run ops initial)) = Started (req_threadId req) sid)"
proof -
  let ?st = "run ops initial"
  have i: "inv ?st" by (rule inv_reachable)
  have 1: "fst (post_start_task sid req now ?st) = Already_running \<and>
            heap (snd (post_start_task sid req now ?st)) = heap ?st \<and>
            sessionTasks (snd (post_start_task sid req now ?st)) = sessionTasks ?st \<and>
            fst (post_start_task sid req now (remove_task a ?st)) = Started (req_threadId req) sid \<and>
            map_of (tasks_of (snd (post_start_task sid req now (remove_task a ?st))) sid)
              (req_threadId req) = Some (length (heap ?st))"
    if reg: "map_of (tasks_of ?st sid) (req_threadId req) = Some a"
  proof -
    from reg have "(req_threadId req, a) \<in> set (tasks_of ?st sid)"
      by (rule map_of_SomeD)
    from registered_task [OF i this]
    have a: "sessionId (task_at ?st a) = sid" "taskId (task_at ?st a) = req_threadId req"
      "\<not> inherited (req_threadId req)"
      by simp_all
    have gone: "map_of (tasks_of (remove_task a ?st) sid) (req_threadId req) = None"
      using tasks_of_remove_task [of a ?st] a by simp
    from post_start_task_duplicate [OF assms, of ?st sid now] reg
      post_start_task_fresh [OF assms gone a(3), of now]
    show ?thesis by simp
  qed
  have 2: "fst (post_start_task sid req now ?st) = Started (req_threadId req) sid"
    if "map_of (tasks_of ?st sid) (req_threadId req) = None" and "\<not> inherited (req_threadId req)"
    using post_start_task_fresh [OF assms that] by simp
  from 1 2 show ?thesis by blast
qed

lemma one_task_state:
  "map_of (tasks_of (run [Post_start_task ''s1'' (example_request ''t1'' ''1'') 5] initial) ''s1'') ''t1'' = Some 0 \<and>
   post_start_task ''s1'' (example_request ''t1'' ''1'') 6
       (run [Post_start_task ''s1'' (example_request ''t1'' ''1'') 5] initial) =
     (Already_running, run [Post_start_task ''s1'' (example_request ''t1'' ''1'') 5] initial) \<and>
   tasks_of (remove_task 0 (run [Post_start_task ''s1'' (example_request ''t1'' ''1'') 5] initial)) ''s1'' = [] \<and>
   tasks_of (snd (post_start_task ''s1'' (example_request ''t1'' ''1'') 6
       (remove_task 0 (run [Post_start_task ''s1'' (example_request ''t1'' ''1'') 5] initial)))) ''s1'' =
     [(''t1'', 1)] \<and>
   map_of (tasks_of (run [] initial) ''s1'') ''t1'' = None \<and> \<not> inherited ''t1''"
  by (simp add: run_defs)

theorem key_uniqueness_and_reuse_witness:
  "fields_present (example_request ''t1'' ''1'') \<and>
   map_of (tasks_of (run [Post_start_task ''s1'' (example_request ''t1'' ''1'') 5] initial) ''s1'') ''t1'' = Some 0 \<and>
   fst (post_start_task ''s1'' (example_request ''t1'' ''1'') 6
       (run [Post_start_task ''s1'' (example_request ''t1'' ''1'') 5] initial)) = Already_running \<and>
   fst (post_start_task ''s1'' (example_request ''t1'' ''1'') 6
       (remove_task 0 (run [Post_start_task ''s1'' (example_request ''t1'' ''1'') 5] initial))) =
     Started ''t1'' ''s1'' \<and>
   fst (post_start_task ''s1'' (example_request ''t1'' ''1'') 6 (run [] initial)) = Started ''t1'' ''s1''"
proof -
  have f: "fields_present (example_request ''t1'' ''1'')"
    by (simp add: fields_present_def example_request_def)
  have t: "req_threadId (example_request ''t1'' ''1'') = ''t1''"
    by (simp add: example_request_def)
  from key_uniqueness_and_reuse [OF f, of "[Post_start_task ''s1'' (example_request ''t1'' ''1'') 5]" "''s1''" 0 6]
    key_uniqueness_and_reuse [OF f, of "[]" "''s1''" 0 6]
    one_task_state f
  show ?thesis unfolding t by blast
qed


text \<open>
  C3, on the code. The session \<open>s1\<close> is empty when the sweep runs and gets a task before
  its timer fires: the timer then deletes the session's entry with the task in it. The
  task is still in the heap, about to run \<open>init\<close>, but the session lists no task and a
  stop request for it is answered \<open>not found\<close>.
\<close>

theorem timer_deletes_session_with_task:
  "tasks_of (run grace_window initial) ''s1'' = [(''t1'', 0)] \<and>
   timers (run grace_window initial) = [''s1''] \<and>
   map_of (sessionTasks (exec Timer_fires (run grace_window initial))) ''s1'' = None \<and>
   fst (get_active_tasks ''s1'' (exec Timer_fires (run grace_window initial))) = [] \<and>
   pc_at (exec Timer_fires (run grace_window initial)) 0 = At_init \<and>
   fst (post_stop_task ''s1'' ''t1'' 9 (exec Timer_fires (run grace_window initial))) = Not_found"
  by (simp add: grace_window_def run_defs)

lemma keys_ok_same_heap: "keys_ok st \<Longrightarrow> heap st' = heap st \<Longrightarrow> keys_ok st'"
  by (simp add: keys_ok_def)

lemma keys_ok_write:
  assumes "keys_ok st" and "a < length (heap st)" and "same_ident (task_at st a) s"
  shows "keys_ok (write_task a s p st)"
proof -
  have "heap st ! a \<in> set (heap st)" using assms(2) by simp
  with assms(1) have "taskId (task_at st a) = threadId (config (task_at st a))"
    by (simp add: keys_ok_def task_at_def)
  with assms(3) have s: "taskId s = threadId (config s)"
    by (simp add: same_ident_def)
  have "set ((heap st)[a := (s, p)]) \<subseteq> insert (s, p) (set (heap st))"
    by (rule set_update_subset_insert)
  with assms(1) s show ?thesis
    by (auto simp: keys_ok_def write_task_def)
qed

lemma stop_heap: "heap (stop a now st) =
    heap (write_task a ((task_at st a)\<lparr>isRunning := False, stopTime := Some now\<rparr>) (pc_at st a) st)"
  by (simp add: stop_def Let_def)

lemma keys_ok_exec:
  assumes "keys_ok st"
  shows "keys_ok (exec x st)"
proof (cases x)
  case (Get_root sid)
  then show ?thesis using assms by (simp add: keys_ok_same_heap)
next
  case (Post_start_task sid req now)
  have "keys_ok (snd (post_start_task sid req now st))"
    using assms
    by (auto simp: post_start_task_def Let_def keys_ok_def new_sender_def split: option.splits)
  with Post_start_task show ?thesis by simp
next
  case (Post_stop_task sid tid now)
  show ?thesis
  proof (cases "map_of (tasks_of st sid) tid")
    case None
    with Post_stop_task assms show ?thesis by (simp add: post_stop_task_def)
  next
    case (Some a)
    show ?thesis
    proof (cases "a < length (heap st)")
      case True
      have "keys_ok (write_task a ((task_at st a)\<lparr>isRunning := False, stopTime := Some now\<rparr>)
          (pc_at st a) st)"
        using assms True by (rule keys_ok_write) (simp add: same_ident_def)
      then have "keys_ok (stop a now st)"
        using stop_heap by (rule keys_ok_same_heap)
      with Post_stop_task Some assms show ?thesis by (simp add: post_stop_task_def)
    next
      case False
      then have "heap (stop a now st) = heap st"
        by (simp add: stop_heap write_task_def list_update_beyond)
      with assms have "keys_ok (stop a now st)" by (rule keys_ok_same_heap)
      with Post_stop_task Some assms show ?thesis by (simp add: post_stop_task_def)
    qed
  qed
next
  case (Get_active_tasks sid)
  then show ?thesis using assms by (simp add: keys_ok_same_heap get_active_tasks_def Let_def)
next
  case (Socket_connect k)
  then show ?thesis using assms by (simp add: keys_ok_def socket_connect_def)
next
  case (Socket_disconnect k)
  then show ?thesis using assms by (simp add: keys_ok_def socket_disconnect_def)
next
  case (Socket_getSessionTasks k)
  then show ?thesis using assms by (simp add: keys_ok_def socket_getSessionTasks_def)
next
  case Sweep
  then show ?thesis using assms by (simp add: keys_ok_def sweep_def)
next
  case Timer_fires
  then show ?thesis using assms by (simp add: keys_ok_def timer_fires_def split: list.splits)
next
  case (Task_init a io)
  show ?thesis
  proof (cases "a < length (heap st) \<and> pc_at st a = At_init")
    case False
    with Task_init assms show ?thesis by (auto simp: task_init_def)
  next
    case True
    obtain s1 acts ok where i: "init io (task_at st a) = (s1, acts, ok)"
      by (cases "init io (task_at st a)")
    from init_props [OF i] have id: "same_ident (task_at st a) s1" by simp
    then have id2: "same_ident (task_at st a) (s1\<lparr>isRunning := True\<rparr>)"
      by (simp add: same_ident_def)
    have "keys_ok (write_task a s1 Done st)" "keys_ok (write_task a (s1\<lparr>isRunning := True\<rparr>) At_connect st)"
      using assms True id id2 by (simp_all add: keys_ok_write)
    then have "keys_ok (task_init a io st)"
      using True i by (cases ok) (simp_all add: task_init_def Let_def keys_ok_def)
    with Task_init show ?thesis by simp
  qed
next
  case (Task_connect a io)
  show ?thesis
  proof (cases "a < length (heap st) \<and> pc_at st a = At_connect")
    case False
    with Task_connect assms show ?thesis by (auto simp: task_connect_def)
  next
    case True
    obtain acts r where c: "connect io (task_at st a) = (acts, r)"
      by (cases "connect io (task_at st a)")
    have "keys_ok (write_task a (task_at st a) At_loop st)"
      "keys_ok (write_task a ((task_at st a)\<lparr>isRunning := False\<rparr>) Done st)"
      using assms True by (simp_all add: keys_ok_write same_ident_def)
    then have "keys_ok (task_connect a io st)"
      using True c by (cases r) (simp_all add: task_connect_def Let_def keys_ok_def)
    with Task_connect show ?thesis by simp
  qed
next
  case (Task_pass a out)
  show ?thesis
  proof (cases "a < length (heap st) \<and> pc_at st a = At_loop")
    case False
    with Task_pass assms show ?thesis by (auto simp: task_pass_def)
  next
    case True
    obtain s1 acts b where p: "send_pass out (task_at st a) = (s1, acts, b)"
      by (cases "send_pass out (task_at st a)")
    from send_pass_props [OF p] have id: "same_ident (task_at st a) s1" by simp
    have "keys_ok (write_task a (task_at st a) Done st)"
      "keys_ok (write_task a s1 Done st)" "keys_ok (write_task a s1 At_loop st)"
      using assms True id by (simp_all add: keys_ok_write)
    then have "keys_ok (task_pass a out st)"
      using True p by (cases b; cases "isRunning (task_at st a)")
        (simp_all add: task_pass_def Let_def keys_ok_def)
    with Task_pass show ?thesis by simp
  qed
next
  case (Resume i page_close browser_close)
  have "heap (resume_at i page_close browser_close st) = heap st"
    by (simp add: resume_at_def snd_resume split: continuation.splits)
  with assms Resume show ?thesis by (simp add: keys_ok_same_heap)
qed

lemma keys_ok_run: "keys_ok st \<Longrightarrow> keys_ok (run xs st)"
  by (induction xs arbitrary: st) (simp_all add: keys_ok_exec)

lemma keys_ok_reachable: "keys_ok (run xs initial)"
  by (rule keys_ok_run) (simp add: keys_ok_def initial_def)

lemma key_is_target:
  "a < length (heap (run xs initial)) \<Longrightarrow>
     taskId (task_at (run xs initial) a) = threadId (config (task_at (run xs initial) a))"
  using keys_ok_reachable [of xs] by (simp add: keys_ok_def task_at_def)

text \<open>
  C9, as amended. In every state the server reaches the key of a task is its target
  identifier (\<open>taskId = threadId\<close>), so two tasks with different keys have different
  targets; and a start-task request with all its fields, for a target that has a task
  registered in the session, is rejected as already running. Uniqueness at creation is
  enforced on the key, which is the target identifier.
\<close>

theorem key_is_the_target:
  "(\<forall>a < length (heap (run ops initial)).
      taskId (task_at (run ops initial) a) = threadId (config (task_at (run ops initial) a))) \<and>
   (\<forall>p \<in> set (tasks_of (run ops initial) sid).
      threadId (config (task_at (run ops initial) (snd p))) = fst p) \<and>
   (fields_present req \<and> map_of (tasks_of (run ops initial) sid) (req_threadId req) \<noteq> None \<longrightarrow>
      fst (post_start_task sid req now (run ops initial)) = Already_running)"
  using key_is_target [of _ ops] registered_task [OF inv_reachable, of _ ops sid]
    post_start_task_duplicate [of req "run ops initial" sid now]
  by blast

theorem key_is_the_target_witness:
  "length (heap (run [Post_start_task ''s1'' (example_request ''t1'' ''1'') 5] initial)) = 1 \<and>
   tasks_of (run [Post_start_task ''s1'' (example_request ''t1'' ''1'') 5] initial) ''s1'' = [(''t1'', 0)] \<and>
   threadId (config (task_at (run [Post_start_task ''s1'' (example_request ''t1'' ''1'') 5] initial) 0)) = ''t1'' \<and>
   taskId (task_at (run [Post_start_task ''s1'' (example_request ''t1'' ''1'') 5] initial) 0) = ''t1'' \<and>
   fields_present (example_request ''t1'' ''10'') \<and>
   fst (post_start_task ''s1'' (example_request ''t1'' ''10'') 6
          (run [Post_start_task ''s1'' (example_request ''t1'' ''1'') 5] initial)) = Already_running"
proof -
  have s: "length (heap (run [Post_start_task ''s1'' (example_request ''t1'' ''1'') 5] initial)) = 1 \<and>
     tasks_of (run [Post_start_task ''s1'' (example_request ''t1'' ''1'') 5] initial) ''s1'' = [(''t1'', 0)] \<and>
     fields_present (example_request ''t1'' ''10'') \<and> req_threadId (example_request ''t1'' ''10'') = ''t1''"
    by (simp add: run_defs fields_present_def)
  from key_is_the_target [of "[Post_start_task ''s1'' (example_request ''t1'' ''1'') 5]" "''s1''"
      "example_request ''t1'' ''10''" 6] s
  show ?thesis by simp
qed

text \<open>
  The claim as stated is false: no run of the server leads to two tasks of one session
  that have the same target identifier and different keys.
\<close>

theorem same_target_different_keys_counterexample:
  "\<not> (\<exists>ops a b. a < length (heap (run ops initial)) \<and> b < length (heap (run ops initial)) \<and>
         sessionId (task_at (run ops initial) a) = sessionId (task_at (run ops initial) b) \<and>
         threadId (config (task_at (run ops initial) a)) =
           threadId (config (task_at (run ops initial) b)) \<and>
         taskId (task_at (run ops initial) a) \<noteq> taskId (task_at (run ops initial) b))"
  using key_is_target by force


lemma obj_set_idem: "obj_set k v (obj_set k v m) = obj_set k v m"
  by (induction m) auto

lemma obj_delete_idem: "obj_delete k (obj_delete k m) = obj_delete k m"
  by (simp add: obj_delete_def)

lemma sessionBrowsers_remove_task:
  "sessionBrowsers (remove_task a st) =
     (case map_of (sessionBrowsers st) (sessionId (task_at st a)) of
        Some m \<Rightarrow> obj_set (sessionId (task_at st a)) (obj_delete (taskId (task_at st a)) m)
                   (sessionBrowsers st)
      | None \<Rightarrow> sessionBrowsers st)"
  by (simp add: remove_task_def Let_def split: option.splits)

lemma task_at_remove_task [simp]: "task_at (remove_task a st) b = task_at st b"
  by (simp add: task_at_def)

lemma remove_task_twice_tasks:
  "sessionTasks (remove_task a (remove_task a st)) = sessionTasks (remove_task a st)"
  by (cases "map_of (sessionTasks st) (sessionId (task_at st a))")
    (simp_all add: sessionTasks_remove_task map_of_obj_set obj_set_idem obj_delete_idem)

lemma remove_task_twice_browsers:
  "sessionBrowsers (remove_task a (remove_task a st)) = sessionBrowsers (remove_task a st)"
  by (cases "map_of (sessionBrowsers st) (sessionId (task_at st a))")
    (simp_all add: sessionBrowsers_remove_task map_of_obj_set obj_set_idem obj_delete_idem)

lemma remove_task_idem: "remove_task a (remove_task a st) = remove_task a st"
  by (rule server.equality)
    (simp_all add: remove_task_twice_tasks remove_task_twice_browsers)

lemma perform_emitStatus:
  "perform a (emitStatus s st msg) srv = publish a (sessionId s) (status_data s st msg) srv"
  by (simp add: perform_def emitStatus_def)

lemma remove_task_cong:
  assumes "same_ident (task_at x a) (task_at y a)"
    and "sessionTasks y = sessionTasks x" and "sessionBrowsers y = sessionBrowsers x"
  shows "sessionTasks (remove_task a y) = sessionTasks (remove_task a x) \<and>
     sessionBrowsers (remove_task a y) = sessionBrowsers (remove_task a x)"
  using assms
  by (simp add: sessionTasks_remove_task sessionBrowsers_remove_task same_ident_def
      split: option.splits)

lemma events_of_same: "emitted st' = emitted st \<Longrightarrow> events_of st' a s = events_of st a s"
  by (simp add: events_of_def)

lemma browsers_remove_task:
  assumes "map_of (sessionBrowsers (remove_task a st)) (sessionId (task_at st a)) = Some bm"
  shows "map_of bm (taskId (task_at st a)) = None"
  using assms
  by (cases "map_of (sessionBrowsers st) (sessionId (task_at st a))")
    (auto simp: sessionBrowsers_remove_task map_of_obj_set map_of_obj_delete)

lemma tasks_of_cong: "sessionTasks x = sessionTasks y \<Longrightarrow> tasks_of x sid = tasks_of y sid"
  by (simp add: tasks_of_def)

lemma post_stop_task_registered:
  assumes "map_of (tasks_of st sid) tid = Some a" and "tid \<noteq> []"
  shows "post_stop_task sid tid now st = (Stop_ok, stop a now st)"
proof -
  from assms(1) have "map_of (sessionTasks st) sid \<noteq> None"
    by (cases "map_of (sessionTasks st) sid") (simp_all add: tasks_of_def)
  with assms show ?thesis
    by (simp add: post_stop_task_def truthy_at_def)
qed

lemma post_stop_task_absent:
  assumes "map_of (tasks_of st sid) tid = None" and "\<not> inherited tid"
  shows "post_stop_task sid tid now st = (Not_found, st)"
  using assms by (simp add: post_stop_task_def truthy_at_def)

lemma stop_effect:
  assumes "a < length (heap st)"
  shows "task_at (stop a now st) a = (task_at st a)\<lparr>isRunning := False, stopTime := Some now\<rparr>"
    and "pc_at (stop a now st) a = pc_at st a"
    and "length (heap (stop a now st)) = length (heap st)"
    and "emitted (stop a now st) =
           emitted st @ [(a, sessionId (task_at st a),
              status_data ((task_at st a)\<lparr>isRunning := False, stopTime := Some now\<rparr>) St_stopping
                ''Stopping task...'')]"
  using assms
  by (simp_all add: stop_def Let_def task_at_def pc_at_def write_task_def perform_emitStatus
      publish_def)

lemma stop_waits:
  assumes "a < length (heap st)" and "page (task_at st a) \<or> browser (task_at st a)"
  shows "sessionTasks (stop a now st) = sessionTasks st"
    and "sessionBrowsers (stop a now st) = sessionBrowsers st"
    and "pending (stop a now st) = pending st @ [(a, Delete_then_stopped)]"
proof -
  let ?s = "(task_at st a)\<lparr>isRunning := False, stopTime := Some now\<rparr>"
  let ?st2 = "perform a (emitStatus ?s St_stopping ''Stopping task...'')
                (write_task a ?s (pc_at st a) st)"
  have t: "task_at ?st2 a = ?s"
    using assms(1) by (simp add: task_at_def write_task_def)
  have c: "cleanup a True ?st2 = ?st2\<lparr>pending := pending ?st2 @ [(a, Delete_then_stopped)]\<rparr>"
    using assms(2) unfolding cleanup_def t by (simp add: Let_def)
  have s: "stop a now st = cleanup a True ?st2"
    by (simp add: stop_def Let_def)
  show "sessionTasks (stop a now st) = sessionTasks st"
    unfolding s c by (simp add: perform_emitStatus publish_def)
  show "sessionBrowsers (stop a now st) = sessionBrowsers st"
    unfolding s c by (simp add: perform_emitStatus publish_def)
  show "pending (stop a now st) = pending st @ [(a, Delete_then_stopped)]"
    unfolding s c by (simp add: perform_emitStatus publish_def)
qed

lemma stop_deletes:
  assumes "a < length (heap st)" and "\<not> page (task_at st a)" and "\<not> browser (task_at st a)"
  shows "sessionTasks (stop a now st) = sessionTasks (remove_task a st)"
    and "sessionBrowsers (stop a now st) = sessionBrowsers (remove_task a st)"
    and "pending (stop a now st) = pending st @ [(a, Stopped_only)]"
proof -
  let ?s = "(task_at st a)\<lparr>isRunning := False, stopTime := Some now\<rparr>"
  let ?st2 = "perform a (emitStatus ?s St_stopping ''Stopping task...'')
                (write_task a ?s (pc_at st a) st)"
  have t: "task_at ?st2 a = ?s"
    using assms(1) by (simp add: task_at_def write_task_def)
  have c: "cleanup a True ?st2 =
      (remove_task a ?st2)\<lparr>pending := pending (remove_task a ?st2) @ [(a, Stopped_only)]\<rparr>"
    using assms(2,3) unfolding cleanup_def t by (simp add: Let_def)
  have s: "stop a now st = cleanup a True ?st2"
    by (simp add: stop_def Let_def)
  have id: "same_ident (task_at st a) (task_at ?st2 a)"
    unfolding t by (simp add: same_ident_def)
  have "sessionTasks ?st2 = sessionTasks st" "sessionBrowsers ?st2 = sessionBrowsers st"
    by (simp_all add: perform_emitStatus publish_def)
  from remove_task_cong [OF id this]
  have r: "sessionTasks (remove_task a ?st2) = sessionTasks (remove_task a st)"
    "sessionBrowsers (remove_task a ?st2) = sessionBrowsers (remove_task a st)"
    by simp_all
  show "sessionTasks (stop a now st) = sessionTasks (remove_task a st)"
    unfolding s c using r by simp
  show "sessionBrowsers (stop a now st) = sessionBrowsers (remove_task a st)"
    unfolding s c using r by simp
  show "pending (stop a now st) = pending st @ [(a, Stopped_only)]"
    unfolding s c by (simp add: perform_emitStatus publish_def)
qed

lemma remove_task_less_pending:
  "sessionTasks (remove_task a (st\<lparr>pending := ps\<rparr>)) = sessionTasks (remove_task a st) \<and>
   sessionBrowsers (remove_task a (st\<lparr>pending := ps\<rparr>)) = sessionBrowsers (remove_task a st)"
  by (rule remove_task_cong) (simp_all add: task_at_def)

lemma resume_at_effect:
  assumes "i < length (pending st)" and "pending st ! i = (a, c)"
  shows "heap (resume_at i p b st) = heap st"
    and "pending (resume_at i p b st) = take i (pending st) @ drop (Suc i) (pending st)"
    and "sessionTasks (resume_at i p b st) =
           (if c = Stopped_only then sessionTasks st else sessionTasks (remove_task a st))"
    and "sessionBrowsers (resume_at i p b st) =
           (if c = Stopped_only then sessionBrowsers st else sessionBrowsers (remove_task a st))"
    and "emitted (resume_at i p b st) =
           (if c = Delete_only then emitted st
            else emitted st @ [(a, sessionId (task_at st a),
                   status_data (task_at st a) St_stopped
                     (''Task stopped. Total messages sent: '' @ show_nat (totalSent (task_at st a))))])"
  using assms remove_task_less_pending
      [where a = a and st = st and ps = "take i (pending st) @ drop (Suc i) (pending st)"]
  by (cases c; simp add: resume_at_def snd_resume stopped_event_def perform_emitStatus publish_def
      task_at_def)+

lemma task_pass_stopped:
  assumes "a < length (heap st)" and "pc_at st a = At_loop" and "\<not> isRunning (task_at st a)"
    and "page (task_at st a) \<or> browser (task_at st a)"
  shows "task_at (task_pass a outcome st) a = task_at st a"
    and "pc_at (task_pass a outcome st) a = Done"
    and "length (heap (task_pass a outcome st)) = length (heap st)"
    and "emitted (task_pass a outcome st) = emitted st"
    and "sessionTasks (task_pass a outcome st) = sessionTasks st"
    and "sessionBrowsers (task_pass a outcome st) = sessionBrowsers st"
    and "pending (task_pass a outcome st) = pending st @ [(a, Delete_only)]"
  using assms
  by (simp_all add: task_pass_def Let_def perform_def cleanup_def task_at_def pc_at_def write_task_def)


lemma task_pass_fatal:
  assumes "a < length (heap st)" and "pc_at st a = At_loop" and "isRunning (task_at st a)"
    and "js_includes m ''textbox not found''"
    and "page (task_at st a) \<or> browser (task_at st a)"
  shows "task_at (task_pass a (Failed m) st) a = task_at st a"
    and "pc_at (task_pass a (Failed m) st) a = Done"
    and "length (heap (task_pass a (Failed m) st)) = length (heap st)"
    and "events_of (task_pass a (Failed m) st) a St_stopped = events_of st a St_stopped"
    and "sessionTasks (task_pass a (Failed m) st) = sessionTasks st"
    and "sessionBrowsers (task_pass a (Failed m) st) = sessionBrowsers st"
    and "pending (task_pass a (Failed m) st) = pending st @ [(a, Delete_only)]"
  using assms
  by (simp_all add: task_pass_def Let_def send_pass_def perform_def cleanup_def task_at_def pc_at_def
      write_task_def emitStatus_def publish_def events_of_def status_data_def)

lemma remove_task_again:
  assumes "same_ident (task_at st a) (task_at x a)"
    and "sessionTasks x = sessionTasks st \<and> sessionBrowsers x = sessionBrowsers st \<or>
         sessionTasks x = sessionTasks (remove_task a st) \<and>
         sessionBrowsers x = sessionBrowsers (remove_task a st)"
  shows "sessionTasks (remove_task a x) = sessionTasks (remove_task a st) \<and>
     sessionBrowsers (remove_task a x) = sessionBrowsers (remove_task a st)"
  using assms(2)
proof
  assume "sessionTasks x = sessionTasks st \<and> sessionBrowsers x = sessionBrowsers st"
  with remove_task_cong [OF assms(1)] show ?thesis by simp
next
  assume r: "sessionTasks x = sessionTasks (remove_task a st) \<and>
         sessionBrowsers x = sessionBrowsers (remove_task a st)"
  have "same_ident (task_at (remove_task a st) a) (task_at x a)"
    using assms(1) by simp
  from remove_task_cong [OF this] r show ?thesis
    by (simp add: remove_task_idem)
qed

lemma events_of_snoc:
  "emitted x = emitted y @ [(b, room, d)] \<Longrightarrow>
     events_of x a s = events_of y a s @ (if b = a \<and> ev_status d = s then [(b, room, d)] else [])"
  by (simp add: events_of_def)

lemma ev_status_data: "ev_status (status_data s st m) = st"
  by (simp add: status_data_def)

lemma same_ident_stopped:
  "same_ident s (s'\<lparr>isRunning := r, stopTime := t\<rparr>) = same_ident s s'"
  by (simp add: same_ident_def)

lemma snoc_without: "take (length ps) (ps @ c # cs) @ drop (Suc (length ps)) (ps @ c # cs) = ps @ cs"
  by simp

text \<open>
  C8, as amended. In a state the server has reached, let a task be registered under
  \<open>tid\<close> in session \<open>sid\<close>. A stop request for it is accepted; once that call of
  \<open>stop()\<close> has resumed (\<open>once\<close>) the key is absent from the session, in
  \<open>sessionTasks\<close> and in \<open>sessionBrowsers\<close>, and the task has emitted one more \<open>stopped\<close>. If the task has neither page nor browser, the entry is
  deleted before the route answers, and a second stop request finds no task. If it has
  one, the entry stays while the page is closed: a second stop request is accepted too,
  and when both calls have resumed (\<open>twice\<close>) the registry is as after one, but the task
  has emitted \<open>stopped\<close> twice. When, after one stop, the loop of the task ends and calls
  \<open>cleanup()\<close> itself (\<open>both\<close>), or when the loop ends by the error path and the stop
  request arrives while that \<open>cleanup()\<close> waits (\<open>errstop\<close>), the registry is again as
  after one stop, and \<open>stopped\<close> is emitted once. Whatever \<open>page.close()\<close> and
  \<open>browser.close()\<close> do, the call that waited for them returns, and a \<open>cleanup()\<close>
  that waited makes its deletion. The deletion made by
  \<open>cleanup()\<close> is by key: made twice in a row it is as made once, and after it the key
  of the task is absent from its session, whichever task was filed under it.
\<close>

theorem stop_and_cleanup_twice:
  assumes st: "st = run ops initial"
    and reg: "map_of (tasks_of st sid) tid = Some a" and tid: "tid \<noteq> []"
    and n: "n = length (pending st)"
    and st': "st' = exec (Post_stop_task sid tid t) st"
    and once: "once = exec (Resume n p b) st'"
    and twice: "twice = run [Post_stop_task sid tid t', Resume n p b, Resume n p' b'] st'"
    and both: "both = run [Task_pass a outcome, Resume n p' b'] once"
    and errstop: "errstop =
          run [Task_pass a (Failed m), Post_stop_task sid tid t', Resume n p b, Resume n p' b'] st"
  shows "fst (post_stop_task sid tid t st) = Stop_ok \<and>
     map_of (tasks_of once sid) tid = None \<and>
     (\<forall>bm. map_of (sessionBrowsers once) sid = Some bm \<longrightarrow> map_of bm tid = None) \<and>
     length (events_of once a St_stopped) = length (events_of st a St_stopped) + 1 \<and>
     (\<not> page (task_at st a) \<and> \<not> browser (task_at st a) \<longrightarrow>
        post_stop_task sid tid t' st' = (Not_found, st')) \<and>
     (page (task_at st a) \<or> browser (task_at st a) \<longrightarrow>
        fst (post_stop_task sid tid t' st') = Stop_ok \<and>
        sessionTasks twice = sessionTasks once \<and> sessionBrowsers twice = sessionBrowsers once \<and>
        length (events_of twice a St_stopped) = length (events_of st a St_stopped) + 2 \<and>
        sessionTasks both = sessionTasks once \<and> sessionBrowsers both = sessionBrowsers once \<and>
        emitted both = emitted once \<and>
        (pc_at st a = At_loop \<longrightarrow>
           pending (exec (Task_pass a outcome) once) = pending st @ [(a, Delete_only)] \<and>
           pc_at both a = Done) \<and>
        (pc_at st a = At_loop \<and> isRunning (task_at st a) \<and> js_includes m ''textbox not found'' \<longrightarrow>
           sessionTasks errstop = sessionTasks once \<and> sessionBrowsers errstop = sessionBrowsers once \<and>
           length (events_of errstop a St_stopped) = length (events_of st a St_stopped) + 1)) \<and>
     fst (resume k c pg br srv) = Returns () \<and>
     snd (resume k Delete_only pg br srv) = remove_task k srv \<and>
     remove_task k (remove_task k srv) = remove_task k srv \<and>
     map_of (tasks_of (remove_task k srv) (sessionId (task_at srv k))) (taskId (task_at srv k)) = None"
proof -
  note [simp] = ev_status_data same_ident_stopped snoc_without
  have i: "inv st" unfolding st by (rule inv_reachable)
  from reg have "(tid, a) \<in> set (tasks_of st sid)" by (rule map_of_SomeD)
  from registered_task [OF i this]
  have a: "a < length (heap st)" and sid: "sessionId (task_at st a) = sid"
    and key: "taskId (task_at st a) = tid" and ninh: "\<not> inherited tid"
    by simp_all
  have gone: "map_of (tasks_of x sid) tid = None"
    if "sessionTasks x = sessionTasks (remove_task a st)" for x
    using tasks_of_remove_task [of a st] tasks_of_cong [OF that, of sid] by (simp add: sid key)
  have p: "post_stop_task sid tid t st = (Stop_ok, stop a t st)"
    using reg tid by (rule post_stop_task_registered)
  then have s1: "st' = stop a t st" unfolding st' by simp
  let ?s1 = "(task_at st a)\<lparr>isRunning := False, stopTime := Some t\<rparr>"
  note e1 = stop_effect [OF a, of t, folded s1]
  have id1: "same_ident (task_at st a) (task_at st' a)"
    unfolding e1(1) by simp
  have a1: "a < length (heap st')" using a e1(3) by simp
  have c1: "fst (post_stop_task sid tid t st) = Stop_ok" using p by simp
  have o: "once = resume_at n p b st'" unfolding once by simp
  have c8: "fst (resume k c pg br srv) = Returns ()" by (rule resume_returns)
  have c8': "snd (resume k Delete_only pg br srv) = remove_task k srv" by (simp add: snd_resume)
  have gone': "\<forall>bm. map_of (sessionBrowsers x) sid = Some bm \<longrightarrow> map_of bm tid = None"
    if "sessionBrowsers x = sessionBrowsers (remove_task a st)" for x
    using browsers_remove_task [of a st] that by (simp add: sid key)
  have c9: "remove_task k (remove_task k srv) = remove_task k srv" by (rule remove_task_idem)
  have c10: "map_of (tasks_of (remove_task k srv) (sessionId (task_at srv k))) (taskId (task_at srv k)) = None"
    by (rule tasks_of_remove_task)
  show ?thesis
  proof (cases "page (task_at st a) \<or> browser (task_at st a)")
    case False
    then have np: "\<not> page (task_at st a)" "\<not> browser (task_at st a)" by simp_all
    note d1 = stop_deletes [OF a np, of t, folded s1]
    have n1: "n < length (pending st')" "pending st' ! n = (a, Stopped_only)"
      unfolding d1(3) n by simp_all
    note r1 = resume_at_effect [OF n1, of p b, folded o]
    have c2: "map_of (tasks_of once sid) tid = None"
      using r1(3) d1(1) by (intro gone) simp
    have c2': "\<forall>bm. map_of (sessionBrowsers once) sid = Some bm \<longrightarrow> map_of bm tid = None"
      using r1(4) d1(2) by (intro gone') simp
    have c3: "length (events_of once a St_stopped) = length (events_of st a St_stopped) + 1"
      using events_of_snoc [of once st' a _ _ a St_stopped] r1(5)
        events_of_snoc [OF e1(4), of a St_stopped] by simp
    have "map_of (tasks_of st' sid) tid = None"
      using d1(1) by (rule gone)
    then have c4: "post_stop_task sid tid t' st' = (Not_found, st')"
      using ninh by (rule post_stop_task_absent)
    from c1 c2 c2' c3 c4 c8 c8' c9 c10 False show ?thesis by simp
  next
    case True
    note w1 = stop_waits [OF a True, of t, folded s1]
    have n1: "n < length (pending st')" "pending st' ! n = (a, Delete_then_stopped)"
      unfolding w1(3) n by simp_all
    note r1 = resume_at_effect [OF n1, of p b, folded o]
    have reg_once: "sessionTasks once = sessionTasks (remove_task a st) \<and>
        sessionBrowsers once = sessionBrowsers (remove_task a st)"
      using r1(3,4) remove_task_again [OF id1] w1(1,2) by simp
    have c2: "map_of (tasks_of once sid) tid = None"
      using reg_once by (intro gone) simp
    have c2': "\<forall>bm. map_of (sessionBrowsers once) sid = Some bm \<longrightarrow> map_of bm tid = None"
      using reg_once by (intro gone') simp
    have ev_once: "events_of once a St_stopped =
        events_of st a St_stopped @ [(a, sessionId (task_at st' a),
           status_data (task_at st' a) St_stopped
             (''Task stopped. Total messages sent: '' @ show_nat (totalSent (task_at st' a))))]"
      using events_of_snoc [of once st' a _ _ a St_stopped] r1(5)
        events_of_snoc [OF e1(4), of a St_stopped] by simp
    then have c3: "length (events_of once a St_stopped) = length (events_of st a St_stopped) + 1"
      by simp
    have pend_once: "pending once = pending st"
      unfolding r1(2) w1(3) n by simp
    have t_once: "task_at once a = ?s1" "pc_at once a = pc_at st a"
      using r1(1) e1(1,2) by (simp_all add: task_at_def pc_at_def)
    have a_once: "a < length (heap once)" using r1(1) a1 by simp
    have reg1: "map_of (tasks_of st' sid) tid = Some a"
      using reg tasks_of_cong [OF w1(1), of sid] by simp
    then have p': "post_stop_task sid tid t' st' = (Stop_ok, stop a t' st')"
      using tid by (rule post_stop_task_registered)
    define st2 where "st2 = stop a t' st'"
    define st3 where "st3 = resume_at n p b st2"
    have tw: "twice = resume_at n p' b' st3"
      unfolding twice st3_def st2_def using p' by simp
    have True1: "page (task_at st' a) \<or> browser (task_at st' a)"
      unfolding e1(1) using True by simp
    note e2 = stop_effect [OF a1, of t', folded st2_def]
    note w2 = stop_waits [OF a1 True1, of t', folded st2_def]
    have id2: "same_ident (task_at st a) (task_at st2 a)"
      unfolding e2(1) e1(1) by simp
    have n2: "n < length (pending st2)" "pending st2 ! n = (a, Delete_then_stopped)"
      unfolding w2(3) w1(3) n by (simp_all add: nth_append)
    note r2 = resume_at_effect [OF n2, of p b, folded st3_def]
    have reg3: "sessionTasks st3 = sessionTasks (remove_task a st) \<and>
        sessionBrowsers st3 = sessionBrowsers (remove_task a st)"
      using r2(3,4) remove_task_again [OF id2] w2(1,2) w1(1,2) by simp
    have id3: "same_ident (task_at st a) (task_at st3 a)"
      using id2 r2(1) by (simp add: task_at_def)
    have n3: "n < length (pending st3)" "pending st3 ! n = (a, Delete_then_stopped)"
      unfolding r2(2) w2(3) w1(3) n by simp_all
    note r3 = resume_at_effect [OF n3, of p' b', folded tw]
    have reg_twice: "sessionTasks twice = sessionTasks (remove_task a st) \<and>
        sessionBrowsers twice = sessionBrowsers (remove_task a st)"
      using r3(3,4) remove_task_again [OF id3] reg3 by simp
    have ev_twice: "length (events_of twice a St_stopped) = length (events_of st a St_stopped) + 2"
      using events_of_snoc [of twice st3 a _ _ a St_stopped] r3(5)
        events_of_snoc [of st3 st2 a _ _ a St_stopped] r2(5)
        events_of_snoc [OF e2(4), of a St_stopped]
        events_of_snoc [OF e1(4), of a St_stopped] by simp
    have both_facts: "sessionTasks both = sessionTasks once \<and>
        sessionBrowsers both = sessionBrowsers once \<and> emitted both = emitted once \<and>
        (pc_at st a = At_loop \<longrightarrow>
           pending (exec (Task_pass a outcome) once) = pending st @ [(a, Delete_only)] \<and>
           pc_at both a = Done)"
    proof (cases "pc_at st a = At_loop")
      case False
      then have "task_pass a outcome once = once"
        using t_once(2) by (simp add: task_pass_def)
      moreover have "resume_at n p' b' once = once"
        using pend_once n by (simp add: resume_at_def)
      ultimately have "both = once" unfolding both by simp
      with False show ?thesis by simp
    next
      case At: True
      define x where "x = task_pass a outcome once"
      have bx: "both = resume_at n p' b' x" unfolding both x_def by simp
      have pre: "pc_at once a = At_loop" "\<not> isRunning (task_at once a)"
        "page (task_at once a) \<or> browser (task_at once a)"
        using At True unfolding t_once by simp_all
      note tp = task_pass_stopped [OF a_once pre, of outcome, folded x_def]
      have nx: "n < length (pending x)" "pending x ! n = (a, Delete_only)"
        unfolding tp(7) pend_once n by simp_all
      note rx = resume_at_effect [OF nx, of p' b', folded bx]
      have idx: "same_ident (task_at st a) (task_at x a)"
        unfolding tp(1) t_once by simp
      have "sessionTasks both = sessionTasks (remove_task a st) \<and>
          sessionBrowsers both = sessionBrowsers (remove_task a st)"
        using rx(3,4) remove_task_again [OF idx] tp(5,6) reg_once by simp
      moreover have "emitted both = emitted once"
        using rx(5) tp(4) by simp
      moreover have "pc_at both a = Done"
        using rx(1) tp(2) by (simp add: pc_at_def)
      moreover have "pending (exec (Task_pass a outcome) once) = pending st @ [(a, Delete_only)]"
        using tp(7) pend_once by (simp add: x_def)
      ultimately show ?thesis using reg_once by simp
    qed
    have err_facts: "sessionTasks errstop = sessionTasks once \<and>
        sessionBrowsers errstop = sessionBrowsers once \<and>
        length (events_of errstop a St_stopped) = length (events_of st a St_stopped) + 1"
      if h: "pc_at st a = At_loop" "isRunning (task_at st a)" "js_includes m ''textbox not found''"
    proof -
      define y1 where "y1 = task_pass a (Failed m) st"
      define y2 where "y2 = stop a t' y1"
      define y3 where "y3 = resume_at n p b y2"
      note f1 = task_pass_fatal [OF a h True, folded y1_def]
      have ay1: "a < length (heap y1)" using f1(3) a by simp
      have "map_of (tasks_of y1 sid) tid = Some a"
        using reg tasks_of_cong [OF f1(5), of sid] by simp
      then have "post_stop_task sid tid t' y1 = (Stop_ok, stop a t' y1)"
        using tid by (rule post_stop_task_registered)
      then have ey: "errstop = resume_at n p' b' y3"
        unfolding errstop y3_def y2_def y1_def by simp
      have Ty1: "page (task_at y1 a) \<or> browser (task_at y1 a)"
        unfolding f1(1) by (rule True)
      note g2 = stop_effect [OF ay1, of t', folded y2_def]
      note v2 = stop_waits [OF ay1 Ty1, of t', folded y2_def]
      have idy2: "same_ident (task_at st a) (task_at y2 a)"
        unfolding g2(1) f1(1) by simp
      have ny2: "n < length (pending y2)" "pending y2 ! n = (a, Delete_only)"
        unfolding v2(3) f1(7) n by (simp_all add: nth_append)
      note q2 = resume_at_effect [OF ny2, of p b, folded y3_def]
      have regy3: "sessionTasks y3 = sessionTasks (remove_task a st) \<and>
          sessionBrowsers y3 = sessionBrowsers (remove_task a st)"
        using q2(3,4) remove_task_again [OF idy2] v2(1,2) f1(5,6) by simp
      have idy3: "same_ident (task_at st a) (task_at y3 a)"
        using idy2 q2(1) by (simp add: task_at_def)
      have ny3: "n < length (pending y3)" "pending y3 ! n = (a, Delete_then_stopped)"
        unfolding q2(2) v2(3) f1(7) n by simp_all
      note q3 = resume_at_effect [OF ny3, of p' b', folded ey]
      have "sessionTasks errstop = sessionTasks (remove_task a st) \<and>
          sessionBrowsers errstop = sessionBrowsers (remove_task a st)"
        using q3(3,4) remove_task_again [OF idy3] regy3 by simp
      moreover have "length (events_of errstop a St_stopped) = length (events_of st a St_stopped) + 1"
        using events_of_snoc [of errstop y3 a _ _ a St_stopped] q3(5)
          events_of_same [of y3 y2 a St_stopped] q2(5)
          events_of_snoc [OF g2(4), of a St_stopped] f1(4) by simp
      ultimately show ?thesis using reg_once by simp
    qed
    from c1 c2 c2' c3 c8 c8' c9 c10 True p' reg_twice reg_once ev_twice both_facts err_facts
    show ?thesis by simp
  qed
qed


lemma run_append: "run (xs @ ys) st = run ys (run xs st)"
  by (induction xs arbitrary: st) simp_all

lemma stopping_state:
  "try_close (task_at (run stopping initial) 0) (Throws ''Protocol error: Target closed'')
     (Throws ''Protocol error: Connection closed'') = Throws ''Protocol error: Target closed'' \<and>
   try_close (task_at (run stopping initial) 0) (Returns ())
     (Throws ''Protocol error: Connection closed'') = Throws ''Protocol error: Connection closed'' \<and>
   sessionBrowsers (run stopping initial) = [(''s1'', [])] \<and>
   tasks_of (run stopping initial) ''s1'' = [(''t1'', 0)]"
  by (simp add: stopping_def in_loop_def run_defs)

lemma in_loop_state:
  "map_of (tasks_of (run in_loop initial) ''s1'') ''t1'' = Some 0 \<and>
   pending (run in_loop initial) = [] \<and>
   page (task_at (run in_loop initial) 0) \<and> pc_at (run in_loop initial) 0 = At_loop \<and>
   isRunning (task_at (run in_loop initial) 0) \<and>
   events_of (run in_loop initial) 0 St_stopped = [] \<and>
   js_includes textbox_missing ''textbox not found''"
  by (simp add: in_loop_def run_defs events_of_def textbox_missing_def)

lemma just_started_state:
  "map_of (tasks_of (run just_started initial) ''s1'') ''t1'' = Some 0 \<and>
   pending (run just_started initial) = [] \<and>
   \<not> page (task_at (run just_started initial) 0) \<and>
   \<not> browser (task_at (run just_started initial) 0)"
  by (simp add: just_started_def run_defs)

theorem stop_and_cleanup_twice_witness:
  "map_of (tasks_of (run in_loop initial) ''s1'') ''t1'' = Some 0 \<and>
   page (task_at (run in_loop initial) 0) \<and> pc_at (run in_loop initial) 0 = At_loop \<and>
   isRunning (task_at (run in_loop initial) 0) \<and>
   fst (post_stop_task ''s1'' ''t1'' 9 (run in_loop initial)) = Stop_ok \<and>
   map_of (tasks_of (run stop_once initial) ''s1'') ''t1'' = None \<and>
   length (events_of (run stop_once initial) 0 St_stopped) = 1 \<and>
   fst (post_stop_task ''s1'' ''t1'' 10 (run stopping initial)) = Stop_ok \<and>
   sessionTasks (run stop_twice initial) = sessionTasks (run stop_once initial) \<and>
   sessionBrowsers (run stop_twice initial) = sessionBrowsers (run stop_once initial) \<and>
   length (events_of (run stop_twice initial) 0 St_stopped) = 2 \<and>
   sessionTasks (run stop_then_exit initial) = sessionTasks (run stop_once initial) \<and>
   emitted (run stop_then_exit initial) = emitted (run stop_once initial) \<and>
   pc_at (run stop_then_exit initial) 0 = Done \<and>
   sessionTasks (run error_then_stop initial) = sessionTasks (run stop_once initial) \<and>
   length (events_of (run error_then_stop initial) 0 St_stopped) = 1 \<and>
   try_close (task_at (run stopping initial) 0) (Throws ''Protocol error: Target closed'')
     (Throws ''Protocol error: Connection closed'') = Throws ''Protocol error: Target closed'' \<and>
   try_close (task_at (run stopping initial) 0) (Returns ())
     (Throws ''Protocol error: Connection closed'') = Throws ''Protocol error: Connection closed'' \<and>
   fst (resume 0 Delete_then_stopped (Throws ''Protocol error: Target closed'')
          (Throws ''Protocol error: Connection closed'') (run stopping initial)) = Returns () \<and>
   snd (resume 0 Delete_only (Throws ''Protocol error: Target closed'')
          (Throws ''Protocol error: Connection closed'') (run stopping initial)) =
     remove_task 0 (run stopping initial) \<and>
   tasks_of (run stopping initial) ''s1'' = [(''t1'', 0)] \<and>
   \<not> page (task_at (run just_started initial) 0) \<and>
   \<not> browser (task_at (run just_started initial) 0) \<and>
   post_stop_task ''s1'' ''t1'' 10 (run stopped_early initial) =
     (Not_found, run stopped_early initial)"
proof -
  note f = in_loop_state
  note g = just_started_state
  have e1: "run stopping initial = exec (Post_stop_task ''s1'' ''t1'' 9) (run in_loop initial)"
    by (simp add: stopping_def run_append)
  have e2: "run stop_once initial = exec (Resume 0 (Returns ()) (Returns ())) (run stopping initial)"
    by (simp add: stop_once_def run_append)
  have e3: "run stop_twice initial =
      run [Post_stop_task ''s1'' ''t1'' 10, Resume 0 (Returns ()) (Returns ()),
           Resume 0 (Throws ''Protocol error: Target closed'') (Returns ())] (run stopping initial)"
    by (simp add: stop_twice_def run_append)
  have e4: "run stop_then_exit initial =
      run [Task_pass 0 Sent, Resume 0 (Throws ''Protocol error: Target closed'') (Returns ())]
        (run stop_once initial)"
    by (simp add: stop_then_exit_def run_append)
  have e5: "run error_then_stop initial =
      run [Task_pass 0 (Failed textbox_missing), Post_stop_task ''s1'' ''t1'' 10,
           Resume 0 (Returns ()) (Returns ()),
           Resume 0 (Throws ''Protocol error: Target closed'') (Returns ())] (run in_loop initial)"
    by (simp add: error_then_stop_def run_append)
  have e6: "run stopped_early initial = exec (Post_stop_task ''s1'' ''t1'' 9) (run just_started initial)"
    by (simp add: stopped_early_def run_append)
  have reg: "map_of (tasks_of (run in_loop initial) ''s1'') ''t1'' = Some 0"
    using f by simp
  have reg': "map_of (tasks_of (run just_started initial) ''s1'') ''t1'' = Some 0"
    using g by simp
  have n: "0 = length (pending (run in_loop initial))"
    using f by simp
  have n': "0 = length (pending (run just_started initial))"
    using g by simp
  have tid: "''t1'' \<noteq> []" by simp
  note th = stop_and_cleanup_twice [OF refl reg tid n e1 e2 e3 e4 e5,
      where k = 0 and c = Delete_then_stopped and pg = "Throws ''Protocol error: Target closed''"
        and br = "Throws ''Protocol error: Connection closed''" and srv = "run stopping initial"]
  note th' = stop_and_cleanup_twice [OF refl reg' tid n' e6 refl refl refl refl,
      where t' = 10]
  from th f have 1: "fst (post_stop_task ''s1'' ''t1'' 9 (run in_loop initial)) = Stop_ok \<and>
     map_of (tasks_of (run stop_once initial) ''s1'') ''t1'' = None \<and>
     length (events_of (run stop_once initial) 0 St_stopped) = 1 \<and>
     fst (post_stop_task ''s1'' ''t1'' 10 (run stopping initial)) = Stop_ok \<and>
     sessionTasks (run stop_twice initial) = sessionTasks (run stop_once initial) \<and>
     sessionBrowsers (run stop_twice initial) = sessionBrowsers (run stop_once initial) \<and>
     length (events_of (run stop_twice initial) 0 St_stopped) = 2 \<and>
     sessionTasks (run stop_then_exit initial) = sessionTasks (run stop_once initial) \<and>
     emitted (run stop_then_exit initial) = emitted (run stop_once initial) \<and>
     pc_at (run stop_then_exit initial) 0 = Done \<and>
     sessionTasks (run error_then_stop initial) = sessionTasks (run stop_once initial) \<and>
     length (events_of (run error_then_stop initial) 0 St_stopped) = 1 \<and>
     fst (resume 0 Delete_then_stopped (Throws ''Protocol error: Target closed'')
            (Throws ''Protocol error: Connection closed'') (run stopping initial)) = Returns () \<and>
     snd (resume 0 Delete_only (Throws ''Protocol error: Target closed'')
            (Throws ''Protocol error: Connection closed'') (run stopping initial)) =
       remove_task 0 (run stopping initial)"
    by simp
  from th' g have 2: "post_stop_task ''s1'' ''t1'' 10 (run stopped_early initial) =
     (Not_found, run stopped_early initial)"
    by simp
  from 1 2 f g stopping_state show ?thesis by simp
qed

text \<open>
  The claim as stated is false. Two stop requests that arrive while the page of the
  task is being closed both call \<open>stop()\<close>, and the task emits \<open>stopped\<close> twice, where
  one stop request makes it emit \<open>stopped\<close> once. And \<open>cleanup()\<close> called a second
  time does not always leave the registry as the first call left it: when the task is
  stopped, a new task is started under its key, and the loop of the old task then ends
  and calls \<open>cleanup()\<close>, the entry of the new task is deleted; the new task is no longer
  listed and cannot be stopped.
\<close>

theorem stop_twice_counterexample:
  "length (events_of (run stop_once initial) 0 St_stopped) = 1 \<and>
   length (events_of (run stop_twice initial) 0 St_stopped) = 2 \<and>
   tasks_of (run stop_twice initial) ''s1'' = [] \<and>
   tasks_of (run restarted initial) ''s1'' = [(''t1'', 1)] \<and>
   tasks_of (run late_cleanup initial) ''s1'' = [] \<and>
   pc_at (run late_cleanup initial) 1 = At_init \<and>
   fst (get_active_tasks ''s1'' (run late_cleanup initial)) = [] \<and>
   fst (post_stop_task ''s1'' ''t1'' 12 (run late_cleanup initial)) = Not_found"
  by (simp add: stop_once_def stop_twice_def restarted_def late_cleanup_def stopping_def in_loop_def
      run_defs events_of_def)

lemma emits_append: "emits (xs @ ys) = emits xs @ emits ys"
  by (induction xs rule: emits.induct) simp_all

lemma emitted_perform:
  "emitted (perform b act st) = emitted st @ map (\<lambda>e. (b, fst e, snd e)) (emits [act])"
  by (cases act) (simp_all add: perform_def publish_def)

lemma emitted_perform_all:
  "emitted (perform_all b acts st) = emitted st @ map (\<lambda>e. (b, fst e, snd e)) (emits acts)"
proof (induction acts arbitrary: st)
  case Nil
  then show ?case by simp
next
  case (Cons act acts)
  have "emits (act # acts) = emits [act] @ emits acts"
    using emits_append [of "[act]" acts] by simp
  then show ?case
    by (simp add: Cons.IH emitted_perform)
qed

lemma active_events_append: "active_events (xs @ ys) = active_events xs @ active_events ys"
  by (induction xs rule: active_events.induct) simp_all

lemma no_active_emits:
  "active_events acts = [] \<Longrightarrow>
     filter (\<lambda>e. fst e = a \<and> ev_status (snd (snd e)) = St_active)
       (map (\<lambda>e. (b, fst e, snd e)) (emits acts)) = []"
  by (induction acts rule: active_events.induct) (simp_all split: if_splits)

lemma other_task_emits:
  "a \<noteq> b \<Longrightarrow>
     filter (\<lambda>e. fst e = a \<and> ev_status (snd (snd e)) = s)
       (map (\<lambda>e. (b, fst e, snd e)) (emits acts)) = []"
  by (induction acts rule: emits.induct) simp_all

lemma task_step_write_perform:
  assumes "b < length (heap st)" and "transition (task_at st b) (pc_at st b) s' p' acts"
  shows "task_step st (perform_all b acts (write_task b s' p' st))"
  unfolding task_step_def
  using assms by (intro exI [of _ b] exI [of _ s'] exI [of _ p'] exI [of _ acts])
    (simp add: emitted_perform_all write_task_def)

lemma init_facts:
  "case init io s of (s1, acts, ok) \<Rightarrow>
     isRunning s1 = isRunning s \<and> currentIndex s1 = currentIndex s \<and> active_events acts = [] \<and>
     (ok \<longrightarrow> messages s1 \<noteq> [] \<and> acts = [])"
  by (simp add: init_def init_failed_def Let_def emitStatus_def status_data_def
      split: attempt.splits)

lemma send_pass_messages: "send_pass out s = (s1, acts, b) \<Longrightarrow> messages s1 = messages s"
  by (cases out) (auto simp: send_pass_sent send_pass_failed split: if_splits)

lemma send_pass_index:
  assumes "send_pass out s = (s1, acts, b)" and "messages s \<noteq> []"
  shows "currentIndex s1 = currentIndex s \<or> currentIndex s1 < length (messages s)"
proof (cases out)
  case Sent
  have "0 < length (messages s)" using assms(2) by simp
  then have "(currentIndex s + 1) mod length (messages s) < length (messages s)"
    by (rule mod_less_divisor)
  with assms(1) Sent show ?thesis by (auto simp: send_pass_sent)
next
  case (Failed m)
  with assms(1) show ?thesis by (auto simp: send_pass_failed split: if_splits)
qed

lemma shape_task_init: "shape st (task_init b io st)"
proof (cases "b < length (heap st) \<and> pc_at st b = At_init")
  case False
  then show ?thesis by (auto simp: task_init_def shape_def)
next
  case True
  let ?s = "task_at st b"
  obtain s1 acts ok where i: "init io ?s = (s1, acts, ok)"
    by (cases "init io ?s")
  from init_facts [where io = io and s = ?s] i
  have f: "isRunning s1 = isRunning ?s" "currentIndex s1 = currentIndex ?s"
    "active_events acts = []" "ok \<longrightarrow> messages s1 \<noteq> [] \<and> acts = []"
    by simp_all
  show ?thesis
  proof (cases ok)
    case False
    have "transition ?s (pc_at st b) s1 Done acts"
      using True f by (simp add: transition_def)
    with True have "task_step st (perform_all b acts (write_task b s1 Done st))"
      by (intro task_step_write_perform) simp_all
    with True i False show ?thesis by (simp add: task_init_def shape_def)
  next
    case ok: True
    let ?s2 = "s1\<lparr>isRunning := True\<rparr>"
    let ?acts = "acts @ [emitStatus ?s2 St_starting ''Initializing browser and navigating to Facebook...'']"
    have "transition ?s (pc_at st b) ?s2 At_connect ?acts"
      using True f ok by (simp add: transition_def)
    with True have "task_step st (perform_all b ?acts (write_task b ?s2 At_connect st))"
      by (intro task_step_write_perform) simp_all
    with True i ok show ?thesis by (simp add: task_init_def shape_def Let_def)
  qed
qed

lemma shape_task_connect: "shape st (task_connect b io st)"
proof (cases "b < length (heap st) \<and> pc_at st b = At_connect")
  case False
  then show ?thesis by (auto simp: task_connect_def shape_def)
next
  case True
  let ?s = "task_at st b"
  obtain acts r where c: "connect io ?s = (acts, r)"
    by (cases "connect io ?s")
  show ?thesis
  proof (cases r)
    case (Throws m)
    let ?acts = "acts @ [emitStatus ?s St_error (''Failed to start: '' @ m), Cleanup]"
    have "transition ?s (pc_at st b) (?s\<lparr>isRunning := False\<rparr>) Done ?acts"
      using True by (simp add: transition_def)
    with True have "task_step st (perform_all b ?acts (write_task b (?s\<lparr>isRunning := False\<rparr>) Done st))"
      by (intro task_step_write_perform) simp_all
    with True c Throws show ?thesis by (simp add: task_connect_def shape_def Let_def)
  next
    case (Returns u)
    let ?acts = "acts @ [emitStatus ?s St_active ''Connected to Facebook. Starting message sending...'']"
    have "transition ?s (pc_at st b) ?s At_loop ?acts"
      using True by (simp add: transition_def)
    with True have "task_step st (perform_all b ?acts (write_task b ?s At_loop st))"
      by (intro task_step_write_perform) simp_all
    with True c Returns show ?thesis by (simp add: task_connect_def shape_def Let_def)
  qed
qed

lemma shape_task_pass: "shape st (task_pass b out st)"
proof (cases "b < length (heap st) \<and> pc_at st b = At_loop")
  case False
  then show ?thesis by (auto simp: task_pass_def shape_def)
next
  case True
  let ?s = "task_at st b"
  show ?thesis
  proof (cases "isRunning ?s")
    case False
    have "transition ?s (pc_at st b) ?s Done [Cleanup]"
      using True by (simp add: transition_def)
    with True have "task_step st (perform_all b [Cleanup] (write_task b ?s Done st))"
      by (intro task_step_write_perform) simp_all
    with True False show ?thesis by (simp add: task_pass_def shape_def Let_def)
  next
    case running: True
    obtain s1 acts brk where p: "send_pass out ?s = (s1, acts, brk)"
      by (cases "send_pass out ?s")
    have m: "messages s1 = messages ?s"
      using p by (rule send_pass_messages)
    have "transition ?s (pc_at st b) s1 Done (acts @ [Cleanup])"
      "transition ?s (pc_at st b) s1 At_loop acts"
      using True m send_pass_index [OF p] by (simp_all add: transition_def)
    with True have "task_step st (perform_all b (acts @ [Cleanup]) (write_task b s1 Done st))"
      "task_step st (perform_all b acts (write_task b s1 At_loop st))"
      by (simp_all add: task_step_write_perform)
    with True running p show ?thesis
      by (cases brk) (simp_all add: task_pass_def shape_def Let_def)
  qed
qed

lemma task_step_stop:
  assumes "b < length (heap st)"
  shows "task_step st (stop b now st)"
proof -
  let ?s = "(task_at st b)\<lparr>isRunning := False, stopTime := Some now\<rparr>"
  let ?acts = "[emitStatus ?s St_stopping ''Stopping task...'']"
  have "transition (task_at st b) (pc_at st b) ?s (pc_at st b) ?acts"
    by (simp add: transition_def emitStatus_def status_data_def)
  moreover have "heap (stop b now st) = (heap st)[b := (?s, pc_at st b)]"
    by (simp add: stop_def Let_def write_task_def)
  moreover have "emitted (stop b now st) =
      emitted st @ map (\<lambda>e. (b, fst e, snd e)) (emits ?acts)"
    by (simp add: stop_def Let_def emitted_perform)
  ultimately show ?thesis
    unfolding task_step_def using assms by blast
qed

lemma task_step_resume:
  assumes "b < length (heap st)"
  shows "task_step st (snd (resume b c page_close browser_close st))"
proof -
  let ?s = "task_at st b"
  let ?acts = "case c of Delete_only \<Rightarrow> [] | _ \<Rightarrow> [stopped_event ?s]"
  have "transition ?s (pc_at st b) ?s (pc_at st b) ?acts"
    by (cases c) (simp_all add: transition_def stopped_event_def emitStatus_def status_data_def)
  moreover have "heap (snd (resume b c page_close browser_close st)) = (heap st)[b := (?s, pc_at st b)]"
    by (cases c) (simp_all add: snd_resume task_at_def pc_at_def)
  moreover have "emitted (snd (resume b c page_close browser_close st)) =
      emitted st @ map (\<lambda>e. (b, fst e, snd e)) (emits ?acts)"
    by (cases c) (simp_all add: snd_resume emitted_perform)
  ultimately show ?thesis
    unfolding task_step_def using assms by blast
qed


lemma report_running_quiet:
  "heap (report_running as st) = heap st \<and>
   (\<forall>a. \<not> isRunning (task_at st a) \<longrightarrow>
      events_of (report_running as st) a St_active = events_of st a St_active)"
proof (induction as arbitrary: st)
  case Nil
  then show ?case by simp
next
  case (Cons b as)
  let ?s = "task_at st b"
  let ?st1 = "if isRunning ?s
         then perform b (emitStatus ?s St_active
                 (''Task running - '' @ show_nat (totalSent ?s) @ '' messages sent'')) st
         else st"
  have h: "heap ?st1 = heap st" by simp
  have t: "task_at ?st1 a = task_at st a" for a
    using h by (rule task_at_heap)
  have e: "events_of ?st1 a St_active = events_of st a St_active"
    if "\<not> isRunning (task_at st a)" for a
  proof (cases "isRunning ?s")
    case False
    then show ?thesis by simp
  next
    case True
    with that have "a \<noteq> b" by auto
    with True show ?thesis
      by (simp add: events_of_def emitted_perform other_task_emits)
  qed
  have "report_running (b # as) st = report_running as ?st1"
    by (simp add: Let_def)
  with Cons.IH [of ?st1] h t e show ?case
    by simp
qed

lemma shape_post_start_task: "shape st (snd (post_start_task sid req now st))"
  by (auto simp: shape_def post_start_task_def Let_def new_sender_def split: option.splits)

lemma shape_exec:
  assumes "inv st"
  shows "shape st (exec x st)"
proof (cases x)
  case (Get_root sid)
  then show ?thesis by (simp add: shape_def)
next
  case (Post_start_task sid req now)
  then show ?thesis by (simp add: shape_post_start_task)
next
  case (Post_stop_task sid tid now)
  show ?thesis
  proof (cases "map_of (tasks_of st sid) tid")
    case None
    with Post_stop_task show ?thesis by (simp add: post_stop_task_def shape_def)
  next
    case (Some b)
    then have "(tid, b) \<in> set (tasks_of st sid)" by (rule map_of_SomeD)
    from registered_task [OF assms this] have "b < length (heap st)" by simp
    then have "task_step st (stop b now st)" by (rule task_step_stop)
    with Post_stop_task Some show ?thesis by (simp add: post_stop_task_def shape_def)
  qed
next
  case (Get_active_tasks sid)
  then show ?thesis by (simp add: shape_def get_active_tasks_def Let_def)
next
  case (Socket_connect k)
  then show ?thesis by (simp add: shape_def socket_connect_def)
next
  case (Socket_disconnect k)
  then show ?thesis by (simp add: shape_def socket_disconnect_def)
next
  case (Socket_getSessionTasks k)
  then show ?thesis
    using report_running_quiet [of "map snd (tasks_of st (snd k))" st]
    by (simp add: shape_def socket_getSessionTasks_def)
next
  case Sweep
  then show ?thesis by (simp add: shape_def sweep_def)
next
  case Timer_fires
  then show ?thesis by (simp add: shape_def timer_fires_def split: list.splits)
next
  case (Task_init b io)
  then show ?thesis by (simp add: shape_task_init)
next
  case (Task_connect b io)
  then show ?thesis by (simp add: shape_task_connect)
next
  case (Task_pass b out)
  then show ?thesis by (simp add: shape_task_pass)
next
  case (Resume i page_close browser_close)
  show ?thesis
  proof (cases "i < length (pending st)")
    case False
    with Resume show ?thesis by (simp add: resume_at_def shape_def)
  next
    case True
    let ?c = "pending st ! i"
    let ?st = "st\<lparr>pending := take i (pending st) @ drop (Suc i) (pending st)\<rparr>"
    have "?c \<in> set (pending st)" using True by simp
    then have "fst ?c < length (heap st)"
      using assms by (simp add: inv_def delivery_ok_def)
    then have "task_step ?st (snd (resume (fst ?c) (snd ?c) page_close browser_close ?st))"
      by (intro task_step_resume) simp
    then have "task_step st (snd (resume (fst ?c) (snd ?c) page_close browser_close ?st))"
      by (simp add: task_step_def task_at_def pc_at_def)
    with Resume True show ?thesis by (simp add: resume_at_def shape_def)
  qed
qed

lemma cell_ok_frame:
  assumes "cell_ok st a" and "heap st' ! a = heap st ! a"
    and "events_of st' a St_active = events_of st a St_active"
  shows "cell_ok st' a"
  using assms by (simp add: cell_ok_def task_at_def pc_at_def)

lemma cells_ok_shape:
  assumes "inv st" and "cells_ok st" and "shape st st'"
  shows "cells_ok st'"
proof -
  from assms(3) consider
    (same) "heap st' = heap st" "emitted st' = emitted st"
    | (step) "task_step st st'"
    | (new) c where "heap st' = heap st @ [(c, At_init)]" "\<not> isRunning c" "emitted st' = emitted st"
    | (report) "heap st' = heap st"
        "\<forall>a. \<not> isRunning (task_at st a) \<longrightarrow> events_of st' a St_active = events_of st a St_active"
    unfolding shape_def by blast
  then show ?thesis
  proof cases
    case same
    show ?thesis
      unfolding cells_ok_def
    proof (intro allI impI)
      fix a
      assume "a < length (heap st')"
      with same(1) assms(2) have ok: "cell_ok st a" by (simp add: cells_ok_def)
      show "cell_ok st' a"
        by (rule cell_ok_frame [OF ok]) (simp_all add: same events_of_def)
    qed
  next
    case step
    then obtain b s' p' acts where
      b: "b < length (heap st)" and
      tr: "transition (task_at st b) (pc_at st b) s' p' acts" and
      h: "heap st' = (heap st)[b := (s', p')]" and
      e: "emitted st' = emitted st @ map (\<lambda>e. (b, fst e, snd e)) (emits acts)"
      unfolding task_step_def by blast
    show ?thesis
      unfolding cells_ok_def
    proof (intro allI impI)
      fix a
      assume "a < length (heap st')"
      then have a: "a < length (heap st)" using h by simp
      with assms(2) have ok: "cell_ok st a" by (simp add: cells_ok_def)
      show "cell_ok st' a"
      proof (cases "a = b")
        case False
        have "events_of st' a St_active = events_of st a St_active"
          using other_task_emits [OF False, of St_active acts] by (simp add: events_of_def e)
        with False h show ?thesis
          by (intro cell_ok_frame [OF ok]) simp_all
      next
        case True
        have t: "task_at st' b = s'" "pc_at st' b = p'"
          using b h by (simp_all add: task_at_def pc_at_def)
        have ev: "events_of st' b St_active = events_of st b St_active"
          if "active_events acts = []"
          using no_active_emits [OF that, of b b] by (simp add: events_of_def e)
        let ?s = "task_at st b" and ?p = "pc_at st b"
        from ok True have ok1: "?p = At_init \<or> (?p = Done \<and> messages ?s = []) \<Longrightarrow>
            \<not> isRunning ?s \<and> events_of st b St_active = []"
          and ok2: "?p = At_connect \<or> ?p = At_loop \<Longrightarrow> messages ?s \<noteq> []"
          by (simp_all add: cell_ok_def)
        from tr consider
          (failed) "?p = At_init" "p' = Done" "isRunning s' = isRunning ?s" "active_events acts = []"
          | (inited) "?p = At_init" "p' = At_connect" "messages s' \<noteq> []"
          | (moved) "?p = At_connect \<or> ?p = At_loop" "p' = Done \<or> p' = At_loop"
              "messages s' = messages ?s"
          | (stopped) "p' = ?p" "messages s' = messages ?s" "isRunning s' \<longrightarrow> isRunning ?s"
              "active_events acts = []"
          unfolding transition_def by blast
        then have "cell_ok st' b"
        proof cases
          case failed
          with ok1 ev have "\<not> isRunning s'" "events_of st' b St_active = []" by simp_all
          with failed(2) t show ?thesis by (simp add: cell_ok_def)
        next
          case inited
          with t show ?thesis by (simp add: cell_ok_def)
        next
          case moved
          with ok2 have "messages s' \<noteq> []" by simp
          with moved(2) t show ?thesis by (auto simp: cell_ok_def)
        next
          case stopped
          have 1: "\<not> isRunning s' \<and> events_of st' b St_active = []"
            if "p' = At_init \<or> (p' = Done \<and> messages s' = [])"
            using that stopped ok1 ev by auto
          have 2: "messages s' \<noteq> []" if "p' = At_connect \<or> p' = At_loop"
            using that stopped ok2 by auto
          from 1 2 t show ?thesis
            unfolding cell_ok_def by blast
        qed
        with True show ?thesis by simp
      qed
    qed
  next
    case new
    have none: "events_of st (length (heap st)) St_active = []"
    proof -
      have "\<forall>e \<in> set (emitted st). fst e \<noteq> length (heap st)"
        using assms(1) by (auto simp: inv_def delivery_ok_def)
      then show ?thesis
        by (simp add: events_of_def filter_empty_conv)
    qed
    show ?thesis
      unfolding cells_ok_def
    proof (intro allI impI)
      fix a
      assume "a < length (heap st')"
      then consider "a < length (heap st)" | "a = length (heap st)"
        using new(1) by (auto simp: less_Suc_eq)
      then show "cell_ok st' a"
      proof cases
        case 1
        with assms(2) have ok: "cell_ok st a" by (simp add: cells_ok_def)
        show ?thesis
          by (rule cell_ok_frame [OF ok]) (simp_all add: 1 new events_of_def nth_append)
      next
        case 2
        then show ?thesis
          using new none by (simp add: cell_ok_def task_at_def pc_at_def events_of_def)
      qed
    qed
  next
    case report
    show ?thesis
      unfolding cells_ok_def
    proof (intro allI impI)
      fix a
      assume "a < length (heap st')"
      with report(1) assms(2) have ok: "cell_ok st a" by (simp add: cells_ok_def)
      have t: "task_at st' a = task_at st a" "pc_at st' a = pc_at st a"
        using report(1) by (simp_all add: task_at_def pc_at_def)
      from ok report(2) t show "cell_ok st' a"
        unfolding cell_ok_def by auto
    qed
  qed
qed

lemma done_shape:
  assumes "shape st st'" and "a < length (heap st)" and "pc_at st a = Done"
  shows "a < length (heap st') \<and> pc_at st' a = Done \<and>
     messages (task_at st' a) = messages (task_at st a)"
proof -
  from assms(1) consider
    (same) "heap st' = heap st"
    | (step) "task_step st st'"
    | (new) c where "heap st' = heap st @ [(c, At_init)]"
    unfolding shape_def by blast
  then show ?thesis
  proof cases
    case same
    with assms(2,3) show ?thesis by (simp add: task_at_def pc_at_def)
  next
    case step
    then obtain b s' p' acts where
      b: "b < length (heap st)" and
      tr: "transition (task_at st b) (pc_at st b) s' p' acts" and
      h: "heap st' = (heap st)[b := (s', p')]"
      unfolding task_step_def by blast
    show ?thesis
    proof (cases "a = b")
      case False
      with assms(2,3) h show ?thesis by (simp add: task_at_def pc_at_def)
    next
      case True
      with tr assms(3) have "p' = Done" "messages s' = messages (task_at st a)"
        unfolding transition_def by auto
      with True b h show ?thesis by (simp add: task_at_def pc_at_def)
    qed
  next
    case new
    with assms(2,3) show ?thesis by (simp add: task_at_def pc_at_def nth_append)
  qed
qed

lemma cells_ok_run: "inv st \<Longrightarrow> cells_ok st \<Longrightarrow> cells_ok (run xs st)"
proof (induction xs arbitrary: st)
  case Nil
  then show ?case by simp
next
  case (Cons x xs)
  have "inv (exec x st)" using Cons.prems(1) by (rule inv_exec)
  moreover have "cells_ok (exec x st)"
    using Cons.prems shape_exec [OF Cons.prems(1)] by (rule cells_ok_shape)
  ultimately show ?case using Cons.IH by simp
qed

lemma done_run:
  "inv st \<Longrightarrow> a < length (heap st) \<Longrightarrow> pc_at st a = Done \<Longrightarrow>
     a < length (heap (run xs st)) \<and> pc_at (run xs st) a = Done \<and>
     messages (task_at (run xs st) a) = messages (task_at st a)"
proof (induction xs arbitrary: st)
  case Nil
  then show ?case by simp
next
  case (Cons x xs)
  have i: "inv (exec x st)" using Cons.prems(1) by (rule inv_exec)
  from done_shape [OF shape_exec [OF Cons.prems(1)] Cons.prems(2,3), of x]
  have d: "a < length (heap (exec x st))" "pc_at (exec x st) a = Done"
    "messages (task_at (exec x st) a) = messages (task_at st a)"
    by simp_all
  from Cons.IH [OF i d(1,2)] d(3) show ?case by simp
qed

lemma cells_ok_reachable: "cells_ok (run xs initial)"
  by (rule cells_ok_run [OF inv_initial]) (simp add: cells_ok_def initial_def)


lemma index_ok_shape:
  assumes "index_ok st" and "shape st st'"
  shows "index_ok st'"
proof -
  from assms(2) consider
    (same) "heap st' = heap st"
    | (step) "task_step st st'"
    | (new) c where "heap st' = heap st @ [(c, At_init)]" "currentIndex c = 0"
    unfolding shape_def by blast
  then show ?thesis
  proof cases
    case same
    with assms(1) show ?thesis by (simp add: index_ok_def task_at_def pc_at_def)
  next
    case step
    then obtain b s' p' acts where
      b: "b < length (heap st)" and
      tr: "transition (task_at st b) (pc_at st b) s' p' acts" and
      h: "heap st' = (heap st)[b := (s', p')]"
      unfolding task_step_def by blast
    let ?s = "task_at st b" and ?p = "pc_at st b"
    from assms(1) b have ok1: "?p = At_init \<Longrightarrow> currentIndex ?s = 0"
      and ok2: "?p = At_connect \<or> ?p = At_loop \<Longrightarrow> currentIndex ?s < length (messages ?s)"
      by (auto simp: index_ok_def)
    have new: "(p' = At_init \<longrightarrow> currentIndex s' = 0) \<and>
        (p' = At_connect \<or> p' = At_loop \<longrightarrow> currentIndex s' < length (messages s'))"
    proof -
      from tr consider
        (failed) "?p = At_init" "p' = Done"
        | (inited) "?p = At_init" "p' = At_connect" "messages s' \<noteq> []"
            "currentIndex s' = currentIndex ?s"
        | (moved) "?p = At_connect \<or> ?p = At_loop" "p' = Done \<or> p' = At_loop"
            "messages s' = messages ?s"
            "messages ?s \<noteq> [] \<longrightarrow>
               currentIndex s' = currentIndex ?s \<or> currentIndex s' < length (messages ?s)"
        | (stopped) "p' = ?p" "messages s' = messages ?s" "currentIndex s' = currentIndex ?s"
        unfolding transition_def by blast
      then show ?thesis
      proof cases
        case failed
        then show ?thesis by simp
      next
        case inited
        with ok1 show ?thesis by simp
      next
        case moved
        from ok2 [OF moved(1)] have "messages ?s \<noteq> []" by auto
        with moved ok2 show ?thesis by auto
      next
        case stopped
        with ok1 ok2 show ?thesis by auto
      qed
    qed
    show ?thesis
      unfolding index_ok_def
    proof (intro allI impI)
      fix a
      assume "a < length (heap st')"
      then have a: "a < length (heap st)" using h by simp
      show "(pc_at st' a = At_init \<longrightarrow> currentIndex (task_at st' a) = 0) \<and>
        (pc_at st' a = At_connect \<or> pc_at st' a = At_loop \<longrightarrow>
           currentIndex (task_at st' a) < length (messages (task_at st' a)))"
      proof (cases "a = b")
        case True
        with b h new show ?thesis by (simp add: task_at_def pc_at_def)
      next
        case False
        with assms(1) a h show ?thesis by (simp add: index_ok_def task_at_def pc_at_def)
      qed
    qed
  next
    case new
    show ?thesis
      unfolding index_ok_def
    proof (intro allI impI)
      fix a
      assume "a < length (heap st')"
      then consider "a < length (heap st)" | "a = length (heap st)"
        using new(1) by (auto simp: less_Suc_eq)
      then show "(pc_at st' a = At_init \<longrightarrow> currentIndex (task_at st' a) = 0) \<and>
        (pc_at st' a = At_connect \<or> pc_at st' a = At_loop \<longrightarrow>
           currentIndex (task_at st' a) < length (messages (task_at st' a)))"
      proof cases
        case 1
        with assms(1) new(1) show ?thesis
          by (simp add: index_ok_def task_at_def pc_at_def nth_append)
      next
        case 2
        with new show ?thesis by (simp add: task_at_def pc_at_def)
      qed
    qed
  qed
qed

lemma index_ok_run: "inv st \<Longrightarrow> index_ok st \<Longrightarrow> index_ok (run xs st)"
proof (induction xs arbitrary: st)
  case Nil
  then show ?case by simp
next
  case (Cons x xs)
  have "inv (exec x st)" using Cons.prems(1) by (rule inv_exec)
  moreover have "index_ok (exec x st)"
    using Cons.prems(2) shape_exec [OF Cons.prems(1)] by (rule index_ok_shape)
  ultimately show ?case using Cons.IH by simp
qed

lemma index_in_range:
  assumes "a < length (heap (run xs initial))" and "pc_at (run xs initial) a = At_loop"
  shows "currentIndex (task_at (run xs initial) a) < length (messages (task_at (run xs initial) a))"
proof -
  have "index_ok (run xs initial)"
    by (rule index_ok_run [OF inv_initial]) (simp add: index_ok_def initial_def)
  with assms show ?thesis by (simp add: index_ok_def)
qed

lemma init_empty_list:
  assumes "io_readFile io = Returns content" and "read_messages content = []"
  shows "init io s =
     (s\<lparr>messages := []\<rparr>,
      [emitStatus (s\<lparr>messages := []\<rparr>) St_error
         ''Initialization failed: No valid messages found in file''],
      False)"
  using assms by (simp add: init_def init_failed_def Let_def)

lemma task_init_empty_list:
  assumes "io_readFile io = Returns content" and "read_messages content = []"
    and "a < length (heap st)" and "pc_at st a = At_init"
  shows "task_init a io st =
     publish a (sessionId (task_at st a))
       (status_data ((task_at st a)\<lparr>messages := []\<rparr>) St_error
          ''Initialization failed: No valid messages found in file'')
       (write_task a ((task_at st a)\<lparr>messages := []\<rparr>) Done st)"
  using assms(3,4) init_empty_list [OF assms(1,2), of "task_at st a"]
  by (simp add: task_init_def perform_def emitStatus_def)

text \<open>
  C5. A task that waits for \<open>init\<close> and whose file holds no message after
  normalization: \<open>start\<close> emits the one error event \<open>Initialization failed: No valid
  messages found in file\<close> and returns false, without reaching the loop; on the server
  that event is the only thing the step emits, and whatever handlers run afterwards, the
  task stays ended, is not running, and has emitted no \<open>active\<close> event.
\<close>

theorem empty_list_rejected:
  assumes "io_readFile io = Returns content" and "read_messages content = []"
    and "a < length (heap (run ops initial))" and "pc_at (run ops initial) a = At_init"
  shows "start io con outs (task_at (run ops initial) a) =
      ((task_at (run ops initial) a)\<lparr>messages := []\<rparr>,
       [emitStatus ((task_at (run ops initial) a)\<lparr>messages := []\<rparr>) St_error
          ''Initialization failed: No valid messages found in file''],
       Returned_false) \<and>
     emitted (task_init a io (run ops initial)) =
       emitted (run ops initial) @
         [(a, sessionId (task_at (run ops initial) a),
           status_data ((task_at (run ops initial) a)\<lparr>messages := []\<rparr>) St_error
             ''Initialization failed: No valid messages found in file'')] \<and>
     pc_at (run later (task_init a io (run ops initial))) a = Done \<and>
     \<not> isRunning (task_at (run later (task_init a io (run ops initial))) a) \<and>
     events_of (run later (task_init a io (run ops initial))) a St_active = []"
proof -
  let ?st = "run ops initial"
  let ?st1 = "task_init a io ?st"
  let ?st2 = "run later ?st1"
  have r1: "?st1 = run (ops @ [Task_init a io]) initial"
    by (simp add: run_append)
  have r2: "?st2 = run (ops @ [Task_init a io] @ later) initial"
    by (simp add: run_append)
  note t = task_init_empty_list [OF assms]
  have e: "emitted ?st1 =
       emitted ?st @
         [(a, sessionId (task_at ?st a),
           status_data ((task_at ?st a)\<lparr>messages := []\<rparr>) St_error
             ''Initialization failed: No valid messages found in file'')]"
    unfolding t by (simp add: publish_def)
  have c: "a < length (heap ?st1)" "pc_at ?st1 a = Done" "messages (task_at ?st1 a) = []"
    unfolding t using assms(3) by (simp_all add: pc_at_def task_at_def write_task_def)
  have i1: "inv ?st1" unfolding r1 by (rule inv_reachable)
  from done_run [OF i1 c(1,2), of later] c(3)
  have d: "a < length (heap ?st2)" "pc_at ?st2 a = Done" "messages (task_at ?st2 a) = []"
    by simp_all
  have "cells_ok ?st2" unfolding r2 by (rule cells_ok_reachable)
  with d have q: "\<not> isRunning (task_at ?st2 a)" "events_of ?st2 a St_active = []"
    by (simp_all add: cells_ok_def cell_ok_def)
  from start_empty_list [OF assms(1,2), of con outs "task_at ?st a"] e d(2) q
  show ?thesis by simp
qed

lemma failed_init_state:
  "io_readFile (example_init_io blank_lines) = Returns blank_lines \<and>
   read_messages blank_lines = [] \<and>
   length (heap (run [Post_start_task ''s1'' (example_request ''t1'' ''1'') 5] initial)) = 1 \<and>
   pc_at (run [Post_start_task ''s1'' (example_request ''t1'' ''1'') 5] initial) 0 = At_init \<and>
   map (\<lambda>e. ev_status (snd (snd e)))
     (emitted (run after_failed_init (task_init 0 (example_init_io blank_lines)
        (run [Post_start_task ''s1'' (example_request ''t1'' ''1'') 5] initial)))) =
     [St_error, St_stopping, St_stopped]"
  by (simp add: after_failed_init_def blank_lines_def run_defs init_failed_def)

theorem empty_list_rejected_witness:
  "read_messages blank_lines = [] \<and>
   pc_at (run [Post_start_task ''s1'' (example_request ''t1'' ''1'') 5] initial) 0 = At_init \<and>
   snd (snd (start (example_init_io blank_lines) example_connect_io [Sent]
     (task_at (run [Post_start_task ''s1'' (example_request ''t1'' ''1'') 5] initial) 0))) =
     Returned_false \<and>
   pc_at (run after_failed_init (task_init 0 (example_init_io blank_lines)
        (run [Post_start_task ''s1'' (example_request ''t1'' ''1'') 5] initial))) 0 = Done \<and>
   events_of (run after_failed_init (task_init 0 (example_init_io blank_lines)
        (run [Post_start_task ''s1'' (example_request ''t1'' ''1'') 5] initial))) 0 St_active = [] \<and>
   map (\<lambda>e. ev_status (snd (snd e)))
     (emitted (run after_failed_init (task_init 0 (example_init_io blank_lines)
        (run [Post_start_task ''s1'' (example_request ''t1'' ''1'') 5] initial)))) =
     [St_error, St_stopping, St_stopped]"
proof -
  note s = failed_init_state
  have a1: "io_readFile (example_init_io blank_lines) = Returns blank_lines"
    and a2: "read_messages blank_lines = []"
    and a4: "pc_at (run [Post_start_task ''s1'' (example_request ''t1'' ''1'') 5] initial) 0 = At_init"
    using s by blast+
  have a3: "0 < length (heap (run [Post_start_task ''s1'' (example_request ''t1'' ''1'') 5] initial))"
    using s by (simp only:)
  note th = empty_list_rejected [OF a1 a2 a3 a4, of example_connect_io "[Sent]" after_failed_init]
  have "snd (snd (start (example_init_io blank_lines) example_connect_io [Sent]
     (task_at (run [Post_start_task ''s1'' (example_request ''t1'' ''1'') 5] initial) 0))) =
     Returned_false"
    using th [THEN conjunct1] by (simp only: snd_conv)
  with th s show ?thesis by blast
qed

end
